theory Spec2Isabelle
  imports Main "HOL-Library.Word" "HOL-Library.Multiset"
begin

section \<open>Sized heap allocator (Containers/ContainerAllocationPolicies.h)\<close>

text \<open>
  \<open>TSizedHeapAllocator<IndexSize, BaseMallocType>::ForAnyElementType\<close> owns at most one
  raw block, held in its only field \<open>Data\<close>. A pointer is a natural number, \<open>0\<close> being
  \<open>nullptr\<close>. \<open>SizeType\<close> is the signed integer of \<open>IndexSize\<close> bits, modelled as
  \<open>'i word\<close> read with \<open>sint\<close>; \<open>SIZE_T\<close> is the unsigned size type of the platform
  (Windows/WindowsPlatform.h: 64 bits under \<open>_WIN64\<close>, \<open>unsigned long\<close> otherwise),
  modelled as \<open>'s word\<close>. \<open>BaseMallocType\<close> is a template parameter of the allocator:
  the pointer its \<open>Realloc\<close> answers is a parameter of the model, and every call made to
  it is recorded in a log.
\<close>

type_synonym ptr = nat

definition nullptr :: ptr where
  "nullptr = 0"

text \<open>A call \<open>BaseMallocType::Realloc(Original, Count[, Alignment])\<close>; the alignment is
  absent in the overload that leaves it to the default argument.\<close>

datatype 'sz malloc_call =
    ReallocCall ptr 'sz "32 word option"

text \<open>
  What a call of \<open>ResizeAllocation\<close> does: either it reaches
  \<open>UE::Core::Private::OnInvalidSizedHeapAllocatorNum(IndexSize, NumElements,
  NumBytesPerElement)\<close>, which does not return, or it returns with a new value of
  \<open>Data\<close> after the logged calls.
\<close>

datatype ('n, 'sz) resize_outcome =
    Fatal nat 'n 'sz
  | Returned ptr "'sz malloc_call list"

text \<open>\<open>(SIZE_T)MAX_int32\<close>. The macro is not among the sources; it is the largest
  value of \<open>int32\<close>.\<close>

definition MAX_int32 :: "'s::len word" where
  "MAX_int32 = 2147483647"

text \<open>\<open>(SIZE_T)TNumericLimits<SizeType>::Max()\<close>: the largest value of the signed index
  type, as a \<open>SIZE_T\<close>.\<close>

definition SizeType_Max :: "'i::len itself \<Rightarrow> 's::len word" where
  "SizeType_Max T = of_nat (2 ^ (LENGTH('i) - 1) - 1)"

text \<open>
  The check of \<open>ResizeAllocation\<close> for under- and overflow. The last disjunct is under
  \<open>if constexpr (sizeof(SizeType) == sizeof(SIZE_T))\<close>; the disjunction of the source
  short-circuits, so the division is only evaluated with a non-zero divisor.
\<close>

definition bInvalidResize :: "'i::len word \<Rightarrow> 's::len word \<Rightarrow> bool" where
  "bInvalidResize NumElements NumBytesPerElement =
     (let b = (NumElements <s 0 \<or> NumBytesPerElement < 1 \<or> NumBytesPerElement > MAX_int32)
      in if LENGTH('i) = LENGTH('s)
         then b \<or> (ucast NumElements :: 's word) > SizeType_Max TYPE('i) div NumBytesPerElement
         else b)"

text \<open>
  \<open>ResizeAllocation(PreviousNumElements, NumElements, NumBytesPerElement)\<close> and its
  overload with \<open>AlignmentOfElement\<close>. The product \<open>NumElements * NumBytesPerElement\<close>
  is computed in \<open>SIZE_T\<close>, the signed count being converted first.
\<close>

definition ResizeAllocationImpl ::
  "(ptr \<Rightarrow> 's word \<Rightarrow> 32 word option \<Rightarrow> ptr) \<Rightarrow> 32 word option \<Rightarrow> ptr \<Rightarrow>
   'i::len word \<Rightarrow> 'i word \<Rightarrow> 's::len word \<Rightarrow> ('i word, 's word) resize_outcome" where
  "ResizeAllocationImpl Realloc Alignment Data PreviousNumElements NumElements NumBytesPerElement =
     (if Data \<noteq> nullptr \<or> NumElements \<noteq> 0 then
        if bInvalidResize NumElements NumBytesPerElement
        then Fatal LENGTH('i) NumElements NumBytesPerElement
        else
          let Count = scast NumElements * NumBytesPerElement
          in Returned (Realloc Data Count Alignment) [ReallocCall Data Count Alignment]
      else Returned Data [])"

definition ResizeAllocation ::
  "(ptr \<Rightarrow> 's word \<Rightarrow> 32 word option \<Rightarrow> ptr) \<Rightarrow> ptr \<Rightarrow>
   'i::len word \<Rightarrow> 'i word \<Rightarrow> 's::len word \<Rightarrow> ('i word, 's word) resize_outcome" where
  "ResizeAllocation Realloc = ResizeAllocationImpl Realloc None"

definition ResizeAllocationAligned ::
  "(ptr \<Rightarrow> 's word \<Rightarrow> 32 word option \<Rightarrow> ptr) \<Rightarrow> ptr \<Rightarrow>
   'i::len word \<Rightarrow> 'i word \<Rightarrow> 's::len word \<Rightarrow> 32 word \<Rightarrow> ('i word, 's word) resize_outcome" where
  "ResizeAllocationAligned Realloc Data PreviousNumElements NumElements NumBytesPerElement
     AlignmentOfElement =
     ResizeAllocationImpl Realloc (Some AlignmentOfElement) Data PreviousNumElements NumElements
       NumBytesPerElement"

text \<open>
  Moving allocator state. The two allocator objects are named by their addresses and may
  be the same object, so their \<open>Data\<close> fields live in a store. \<open>checkSlow\<close> is an
  assertion macro compiled in only for debug builds; \<open>bDoGuardSlow\<close> tells whether it
  is. The outcome of a move is a failed check, or the new store with the blocks passed
  to \<open>BaseMallocType::Free\<close>, in order.
\<close>

type_synonym addr = nat

datatype move_outcome =
    CheckFailed
  | Moved "addr \<Rightarrow> ptr" "ptr list"

definition MoveToEmptyFromOtherAllocator ::
  "bool \<Rightarrow> (addr \<Rightarrow> ptr) \<Rightarrow> addr \<Rightarrow> addr \<Rightarrow> move_outcome" where
  "MoveToEmptyFromOtherAllocator bDoGuardSlow Data this Other =
     (if bDoGuardSlow \<and> \<not> (this \<noteq> Other) then CheckFailed
      else
        let freed = (if Data this \<noteq> nullptr then [Data this] else []);
            Data1 = Data(this := Data Other);
            Data2 = Data1(Other := nullptr)
        in Moved Data2 freed)"

definition MoveToEmpty ::
  "bool \<Rightarrow> (addr \<Rightarrow> ptr) \<Rightarrow> addr \<Rightarrow> addr \<Rightarrow> move_outcome" where
  "MoveToEmpty bDoGuardSlow Data this Other =
     MoveToEmptyFromOtherAllocator bDoGuardSlow Data this Other"

section \<open>Key functions and pairs\<close>

text \<open>
  Modelled from the spec: \<open>KeyFuncs\<close>, the hashing and equality strategy of a set or
  map, provides \<open>GetKeyHash\<close>, an unsigned 32-bit hash, an equality predicate, here
  \<open>Matches\<close>, and the flag \<open>bAllowDuplicateKeys\<close>. The source of the map names
  \<open>KeyFuncs::GetKeyHash\<close> and \<open>KeyFuncs::bAllowDuplicateKeys\<close>; the equality
  predicate is used by the set, which applies it to the key of a stored element and the
  key asked for.
\<close>

type_synonym uint32 = "32 word"

record 'k KeyFuncs =
  GetKeyHash :: "'k \<Rightarrow> uint32"
  Matches :: "'k \<Rightarrow> 'k \<Rightarrow> bool"
  bAllowDuplicateKeys :: bool

text \<open>
  Modelled from the spec: the contract of a key strategy. Its equality predicate is an
  equivalence on keys, and keys that are equal have the same hash.
\<close>

definition KeyFuncsOk :: "'k KeyFuncs \<Rightarrow> bool" where
  "KeyFuncsOk kf =
     ((\<forall>a. Matches kf a a)
      \<and> (\<forall>a b. Matches kf a b \<longrightarrow> Matches kf b a)
      \<and> (\<forall>a b c. Matches kf a b \<longrightarrow> Matches kf b c \<longrightarrow> Matches kf a c)
      \<and> (\<forall>a b. Matches kf a b \<longrightarrow> GetKeyHash kf a = GetKeyHash kf b))"

text \<open>\<open>TPair<KeyType, ValueType>\<close>, the element type of a map.\<close>

record ('k, 'v) TPair =
  Key :: 'k
  Value :: 'v

section \<open>The sparse element set\<close>

text \<open>
  Modelled from the spec: \<open>TSet\<close>, the sparse element set that \<open>TMapBase\<close> wraps, is
  not among the sources. The spec describes it as a hash-indexed collection that gives
  each live element a stable slot identifier, leaves a tombstone where an element was
  removed, recycles the identifiers of removed elements through a free list, and chains
  the elements of a hash bucket. A set is its slot array, \<open>None\<close> being a tombstone, its
  free list, and its hash chain: the identifiers of the live elements in the order in
  which a lookup meets them (the chains of all buckets in one list; a lookup by hash
  passes over the elements stored under another hash). A new element is linked at the
  head of the chain, so that a lookup meets the element linked last first: by the spec a
  \<open>Find\<close> right after an \<open>Add\<close> answers the value just added, in a multi-value map as
  in a single-value one. A live slot holds the pair and the hash it was stored under.
  \<open>FSetElementId\<close> is a slot number.
\<close>

type_synonym FSetElementId = nat

record ('k, 'v) TSetElement =
  Pair :: "('k, 'v) TPair"
  KeyHash :: uint32

record ('k, 'v) TSet =
  Elements :: "('k, 'v) TSetElement option list"
  FreeList :: "FSetElementId list"
  HashChain :: "FSetElementId list"

text \<open>Modelled from the spec: what an identifier names, nothing when it is not the
  identifier of a live element.\<close>

definition slot_at :: "('k, 'v) TSet \<Rightarrow> FSetElementId \<Rightarrow> ('k, 'v) TSetElement option" where
  "slot_at s ElemId = (if ElemId < length (Elements s) then Elements s ! ElemId else None)"

text \<open>Modelled from the spec: the live elements of a slot array, in slot order, which
  is the order of iteration.\<close>

primrec live :: "'a option list \<Rightarrow> 'a list" where
  "live [] = []"
| "live (x # xs) = (case x of None \<Rightarrow> live xs | Some e \<Rightarrow> e # live xs)"

text \<open>Modelled from the spec: the empty set, which \<open>Reset\<close> and \<open>Empty\<close> also leave
  (capacity is not part of the model).\<close>

definition set_Empty :: "('k, 'v) TSet" where
  "set_Empty = \<lparr>Elements = [], FreeList = [], HashChain = []\<rparr>"

text \<open>Modelled from the spec: \<open>TSet::Num\<close>, the number of live elements.\<close>

definition set_Num :: "('k, 'v) TSet \<Rightarrow> nat" where
  "set_Num s = length (live (Elements s))"

text \<open>Modelled from the spec: \<open>TSet::operator[]\<close>, the pair in a slot; \<open>None\<close> when the
  identifier is not that of a live element.\<close>

definition set_Get :: "('k, 'v) TSet \<Rightarrow> FSetElementId \<Rightarrow> ('k, 'v) TPair option" where
  "set_Get s ElemId = map_option Pair (slot_at s ElemId)"

text \<open>Modelled from the spec: iteration over a set visits the live pairs in slot order.\<close>

definition set_Iterate :: "('k, 'v) TSet \<Rightarrow> ('k, 'v) TPair list" where
  "set_Iterate s = map Pair (live (Elements s))"

text \<open>
  Modelled from the spec: \<open>TSet::Find\<close> answers an element whose key equals the key
  asked for under the equality of the set's key functions, or nothing when no such
  element exists; it follows the hash chain, so of several such elements it answers the
  one linked last. \<open>TSet::FindByHash\<close> probes the bucket of the hash the caller gives,
  so it only sees elements stored under that hash. \<open>TSet::Contains\<close> is the existence
  check. A pointer to an element is the number of its slot.
\<close>

definition has_key :: "'k KeyFuncs \<Rightarrow> 'k \<Rightarrow> ('k, 'v) TSetElement option \<Rightarrow> bool" where
  "has_key kf k slot = (case slot of None \<Rightarrow> False | Some e \<Rightarrow> Matches kf (Key (Pair e)) k)"

definition has_hash_key ::
  "'k KeyFuncs \<Rightarrow> uint32 \<Rightarrow> 'k \<Rightarrow> ('k, 'v) TSetElement option \<Rightarrow> bool" where
  "has_hash_key kf h k slot =
     (case slot of None \<Rightarrow> False | Some e \<Rightarrow> KeyHash e = h \<and> Matches kf (Key (Pair e)) k)"

definition set_Find :: "'k KeyFuncs \<Rightarrow> ('k, 'v) TSet \<Rightarrow> 'k \<Rightarrow> FSetElementId option" where
  "set_Find kf s k = find (\<lambda>ElemId. has_key kf k (slot_at s ElemId)) (HashChain s)"

definition set_FindByHash ::
  "'k KeyFuncs \<Rightarrow> ('k, 'v) TSet \<Rightarrow> uint32 \<Rightarrow> 'k \<Rightarrow> FSetElementId option" where
  "set_FindByHash kf s h k =
     find (\<lambda>ElemId. has_hash_key kf h k (slot_at s ElemId)) (HashChain s)"

definition set_Contains :: "'k KeyFuncs \<Rightarrow> ('k, 'v) TSet \<Rightarrow> 'k \<Rightarrow> bool" where
  "set_Contains kf s k = list_ex (has_key kf k) (Elements s)"

text \<open>
  Modelled from the spec: a new element takes the slot at the head of the free list, or a
  fresh slot at the end of the array when the free list is empty, and is linked at the
  head of the hash chain.
\<close>

definition set_AddNew ::
  "('k, 'v) TSet \<Rightarrow> ('k, 'v) TSetElement \<Rightarrow> FSetElementId \<times> ('k, 'v) TSet" where
  "set_AddNew s e =
     (case FreeList s of
        [] \<Rightarrow>
          (length (Elements s),
           s\<lparr>Elements := Elements s @ [Some e],
             HashChain := length (Elements s) # HashChain s\<rparr>)
      | ElemId # Free \<Rightarrow>
          (ElemId,
           s\<lparr>Elements := (Elements s)[ElemId := Some e], FreeList := Free,
             HashChain := ElemId # HashChain s\<rparr>))"

text \<open>Modelled from the spec: a prior pair with an equal key is replaced in place, value
  updated, key retained.\<close>

definition set_Replace :: "('k, 'v) TSet \<Rightarrow> FSetElementId \<Rightarrow> 'v \<Rightarrow> ('k, 'v) TSet" where
  "set_Replace s ElemId v =
     s\<lparr>Elements :=
         (Elements s)
           [ElemId :=
              map_option (\<lambda>e. e\<lparr>Pair := (Pair e)\<lparr>Value := v\<rparr>\<rparr>) (Elements s ! ElemId)]\<rparr>"

text \<open>
  Modelled from the spec: \<open>TSet::Emplace\<close> is find-or-create-then-set. When duplicate
  keys are disallowed and a prior pair has an equal key, that pair's value is set;
  otherwise a new element is created, stored under the hash of its key.
  \<open>TSet::EmplaceByHash\<close> has the same contract with the hash supplied by the caller: it
  looks for the prior pair in the bucket of that hash and stores a new element under it.
\<close>

definition set_Emplace ::
  "'k KeyFuncs \<Rightarrow> ('k, 'v) TSet \<Rightarrow> 'k \<Rightarrow> 'v \<Rightarrow> FSetElementId \<times> ('k, 'v) TSet" where
  "set_Emplace kf s k v =
     (case (if bAllowDuplicateKeys kf then None else set_Find kf s k) of
        Some ElemId \<Rightarrow> (ElemId, set_Replace s ElemId v)
      | None \<Rightarrow> set_AddNew s \<lparr>Pair = \<lparr>Key = k, Value = v\<rparr>, KeyHash = GetKeyHash kf k\<rparr>)"

definition set_EmplaceByHash ::
  "'k KeyFuncs \<Rightarrow> ('k, 'v) TSet \<Rightarrow> uint32 \<Rightarrow> 'k \<Rightarrow> 'v \<Rightarrow> FSetElementId \<times> ('k, 'v) TSet" where
  "set_EmplaceByHash kf s h k v =
     (case (if bAllowDuplicateKeys kf then None else set_FindByHash kf s h k) of
        Some ElemId \<Rightarrow> (ElemId, set_Replace s ElemId v)
      | None \<Rightarrow> set_AddNew s \<lparr>Pair = \<lparr>Key = k, Value = v\<rparr>, KeyHash = h\<rparr>)"

text \<open>
  Modelled from the spec: \<open>TSet::Remove\<close> removes every element with an equal key
  (0 or 1 of them in a single-value map, 0..N in a multi-map), leaves tombstones, puts
  the freed slots on the free list, unlinks them from the hash chain and answers how
  many it removed.
\<close>

definition set_Remove :: "'k KeyFuncs \<Rightarrow> ('k, 'v) TSet \<Rightarrow> 'k \<Rightarrow> nat \<times> ('k, 'v) TSet" where
  "set_Remove kf s k =
     (let ElemIds =
            filter (\<lambda>ElemId. has_key kf k (Elements s ! ElemId)) [0..<length (Elements s)]
      in (length ElemIds,
          s\<lparr>Elements := map (\<lambda>slot. if has_key kf k slot then None else slot) (Elements s),
            FreeList := rev ElemIds @ FreeList s,
            HashChain :=
              filter (\<lambda>ElemId. \<not> has_key kf k (slot_at s ElemId)) (HashChain s)\<rparr>))"

section \<open>TMapBase\<close>

text \<open>
  \<open>TMapBase<KeyType, ValueType, SetAllocator, KeyFuncs>\<close> (src/unnamed/part_001) has
  one field, the set \<open>Pairs\<close>, whose key functions are the \<open>KeyFuncs\<close> of the map. Each
  member function below takes those key functions and the map, and answers its result
  with the map it leaves. A pointer or reference
  to a stored value (\<open>ValueType*\<close>, \<open>ValueType&\<close>) is the identifier of the slot whose
  pair holds the value, \<open>None\<close> being \<open>nullptr\<close>; \<open>ValueAt\<close> reads through it. Counts
  (\<open>int32\<close> in the source) are natural numbers.
\<close>

record ('k, 'v) TMapBase =
  Pairs :: "('k, 'v) TSet"

definition EmptyMap :: "('k, 'v) TMapBase" where
  "EmptyMap = \<lparr>Pairs = set_Empty\<rparr>"

definition Num :: "('k, 'v) TMapBase \<Rightarrow> nat" where
  "Num m = set_Num (Pairs m)"

definition Get :: "('k, 'v) TMapBase \<Rightarrow> FSetElementId \<Rightarrow> ('k, 'v) TPair option" where
  "Get m ElemId = set_Get (Pairs m) ElemId"

definition ValueAt :: "('k, 'v) TMapBase \<Rightarrow> FSetElementId \<Rightarrow> 'v option" where
  "ValueAt m p = map_option Value (Get m p)"

definition Emplace ::
  "'k KeyFuncs \<Rightarrow> ('k, 'v) TMapBase \<Rightarrow> 'k \<Rightarrow> 'v \<Rightarrow> FSetElementId \<times> ('k, 'v) TMapBase" where
  "Emplace kf m InKey InValue =
     (let (PairId, P) = set_Emplace kf (Pairs m) InKey InValue
      in (PairId, m\<lparr>Pairs := P\<rparr>))"

definition Add ::
  "'k KeyFuncs \<Rightarrow> ('k, 'v) TMapBase \<Rightarrow> 'k \<Rightarrow> 'v \<Rightarrow> FSetElementId \<times> ('k, 'v) TMapBase" where
  "Add kf m InKey InValue = Emplace kf m InKey InValue"

definition EmplaceByHash ::
  "'k KeyFuncs \<Rightarrow> ('k, 'v) TMapBase \<Rightarrow> uint32 \<Rightarrow> 'k \<Rightarrow> 'v
     \<Rightarrow> FSetElementId \<times> ('k, 'v) TMapBase" where
  "EmplaceByHash kf m KeyHash' InKey InValue =
     (let (PairId, P) = set_EmplaceByHash kf (Pairs m) KeyHash' InKey InValue
      in (PairId, m\<lparr>Pairs := P\<rparr>))"

definition AddByHash ::
  "'k KeyFuncs \<Rightarrow> ('k, 'v) TMapBase \<Rightarrow> uint32 \<Rightarrow> 'k \<Rightarrow> 'v
     \<Rightarrow> FSetElementId \<times> ('k, 'v) TMapBase" where
  "AddByHash kf m KeyHash' InKey InValue = EmplaceByHash kf m KeyHash' InKey InValue"

definition Remove ::
  "'k KeyFuncs \<Rightarrow> ('k, 'v) TMapBase \<Rightarrow> 'k \<Rightarrow> nat \<times> ('k, 'v) TMapBase" where
  "Remove kf m InKey =
     (let (NumRemovedPairs, P) = set_Remove kf (Pairs m) InKey
      in (NumRemovedPairs, m\<lparr>Pairs := P\<rparr>))"

definition Find :: "'k KeyFuncs \<Rightarrow> ('k, 'v) TMapBase \<Rightarrow> 'k \<Rightarrow> FSetElementId option" where
  "Find kf m k =
     (case set_Find kf (Pairs m) k of Some Pair' \<Rightarrow> Some Pair' | None \<Rightarrow> None)"

definition FindByHash ::
  "'k KeyFuncs \<Rightarrow> ('k, 'v) TMapBase \<Rightarrow> uint32 \<Rightarrow> 'k \<Rightarrow> FSetElementId option" where
  "FindByHash kf m KeyHash' k =
     (case set_FindByHash kf (Pairs m) KeyHash' k of
        Some Pair' \<Rightarrow> Some Pair'
      | None \<Rightarrow> None)"

definition Contains :: "'k KeyFuncs \<Rightarrow> ('k, 'v) TMapBase \<Rightarrow> 'k \<Rightarrow> bool" where
  "Contains kf m k = set_Contains kf (Pairs m) k"

definition HashKey :: "'k KeyFuncs \<Rightarrow> 'k \<Rightarrow> uint32" where
  "HashKey kf k = GetKeyHash kf k"

definition FindOrAddImpl ::
  "'k KeyFuncs \<Rightarrow> ('k, 'v) TMapBase \<Rightarrow> uint32 \<Rightarrow> 'k \<Rightarrow> 'v
     \<Rightarrow> FSetElementId \<times> ('k, 'v) TMapBase" where
  "FindOrAddImpl kf m KeyHash' k v =
     (case set_FindByHash kf (Pairs m) KeyHash' k of
        Some Pair' \<Rightarrow> (Pair', m)
      | None \<Rightarrow> AddByHash kf m KeyHash' k v)"

definition FindOrAdd ::
  "'k KeyFuncs \<Rightarrow> ('k, 'v) TMapBase \<Rightarrow> 'k \<Rightarrow> 'v \<Rightarrow> FSetElementId \<times> ('k, 'v) TMapBase" where
  "FindOrAdd kf m k v = FindOrAddImpl kf m (HashKey kf k) k v"




text \<open>
  Modelled from the spec: \<open>TSet::Reset\<close> discards all elements and
  \<open>TSet::Reserve\<close> pre-sizes the set; it changes capacity, not contents.
  \<open>TArray\<close>, the output collection of \<open>GetKeys\<close>, is a list: \<open>Reset\<close>
  empties it, \<open>Add\<close> appends, \<open>Num\<close> is its length and \<open>Reserve\<close> changes capacity
  only.
\<close>

definition set_Reset :: "('k, 'v) TSet \<Rightarrow> ('k, 'v) TSet" where
  "set_Reset s = set_Empty"

definition set_Reserve :: "('k, 'v) TSet \<Rightarrow> nat \<Rightarrow> ('k, 'v) TSet" where
  "set_Reserve s Number = s"

definition array_Reset :: "'a list \<Rightarrow> 'a list" where
  "array_Reset xs = []"

definition array_Reserve :: "'a list \<Rightarrow> nat \<Rightarrow> 'a list" where
  "array_Reserve xs Number = xs"

text \<open>
  \<open>GetKeys\<close>, the overload that fills a \<open>TArray\<close>. The local \<open>VisitedKeys\<close> is a
  \<open>TSet<KeyType>\<close>: a set of keys with no values, whose key functions \<open>dkf\<close> are the
  ones \<open>TSet\<close> gives a key type by default and not the \<open>KeyFuncs\<close> of the map, here
  \<open>kf\<close>, of which the function reads \<open>bAllowDuplicateKeys\<close> only. The function answers
  the count and leaves the array.
\<close>

fun GetKeysLoop ::
  "'k KeyFuncs \<Rightarrow> ('k, 'v) TPair list \<Rightarrow> 'k list \<Rightarrow> ('k, unit) TSet
     \<Rightarrow> 'k list \<times> ('k, unit) TSet" where
  "GetKeysLoop dkf [] OutKeys VisitedKeys = (OutKeys, VisitedKeys)"
| "GetKeysLoop dkf (It # Rest) OutKeys VisitedKeys =
     (if \<not> set_Contains dkf VisitedKeys (Key It)
      then GetKeysLoop dkf Rest (OutKeys @ [Key It])
             (snd (set_Emplace dkf VisitedKeys (Key It) ()))
      else GetKeysLoop dkf Rest OutKeys VisitedKeys)"

definition GetKeys ::
  "'k KeyFuncs \<Rightarrow> 'k KeyFuncs \<Rightarrow> ('k, 'v) TMapBase \<Rightarrow> 'k list \<Rightarrow> nat \<times> 'k list" where
  "GetKeys kf dkf m OutKeys =
     (let OutKeys1 = array_Reset OutKeys;
          VisitedKeys = set_Reserve set_Empty (Num m);
          OutKeys2 = (if \<not> bAllowDuplicateKeys kf then array_Reserve OutKeys1 (Num m)
                      else OutKeys1);
          (OutKeys3, Visited3) = GetKeysLoop dkf (set_Iterate (Pairs m)) OutKeys2 VisitedKeys
      in (length OutKeys3, OutKeys3))"

text \<open>\<open>GetKeys\<close>, the overload that fills a set of keys, \<open>dkf\<close> being the key functions
  of that set.\<close>

fun GetKeysSetLoop ::
  "'k KeyFuncs \<Rightarrow> ('k, 'v) TPair list \<Rightarrow> ('k, unit) TSet \<Rightarrow> ('k, unit) TSet" where
  "GetKeysSetLoop dkf [] OutKeys = OutKeys"
| "GetKeysSetLoop dkf (It # Rest) OutKeys =
     GetKeysSetLoop dkf Rest (snd (set_Emplace dkf OutKeys (Key It) ()))"

definition GetKeysSet ::
  "'k KeyFuncs \<Rightarrow> 'k KeyFuncs \<Rightarrow> ('k, 'v) TMapBase \<Rightarrow> ('k, unit) TSet
     \<Rightarrow> nat \<times> ('k, unit) TSet" where
  "GetKeysSet kf dkf m OutKeys =
     (let OutKeys1 = set_Reset OutKeys;
          OutKeys2 = (if \<not> bAllowDuplicateKeys kf then set_Reserve OutKeys1 (Num m)
                      else OutKeys1);
          OutKeys3 = GetKeysSetLoop dkf (set_Iterate (Pairs m)) OutKeys2
      in (set_Num OutKeys3, OutKeys3))"

text \<open>A sequence of \<open>Add(k, v)\<close> calls; the value of the most recent \<open>Add\<close> of a key in
  such a sequence, a key being one that equals it under the map's equality; and the keys
  of a sequence that equal neither a key seen before nor an earlier key of the
  sequence, which are the keys such a sequence of calls adds to a map.\<close>

fun AddAll ::
  "'k KeyFuncs \<Rightarrow> ('k, 'v) TMapBase \<Rightarrow> ('k \<times> 'v) list \<Rightarrow> ('k, 'v) TMapBase" where
  "AddAll kf m [] = m"
| "AddAll kf m ((k, v) # calls) = AddAll kf (snd (Add kf m k v)) calls"

fun MostRecentAdd :: "'k KeyFuncs \<Rightarrow> ('k \<times> 'v) list \<Rightarrow> 'k \<Rightarrow> 'v option" where
  "MostRecentAdd kf [] k = None"
| "MostRecentAdd kf ((k', v) # calls) k =
     (case MostRecentAdd kf calls k of
        Some w \<Rightarrow> Some w
      | None \<Rightarrow> if Matches kf k' k then Some v else None)"

primrec NewKeys :: "'k KeyFuncs \<Rightarrow> 'k list \<Rightarrow> 'k list \<Rightarrow> 'k list" where
  "NewKeys kf seen [] = []"
| "NewKeys kf seen (k # ks) =
     (if list_ex (\<lambda>k'. Matches kf k' k) seen then NewKeys kf seen ks
      else k # NewKeys kf (seen @ [k]) ks)"

text \<open>The stored pairs of a map whose key equals a given key, and keys that are
  pairwise different under an equality.\<close>

definition PairsOf :: "'k KeyFuncs \<Rightarrow> ('k, 'v) TMapBase \<Rightarrow> 'k \<Rightarrow> ('k, 'v) TPair list" where
  "PairsOf kf m k = filter (\<lambda>p. Matches kf (Key p) k) (set_Iterate (Pairs m))"

primrec KeysDiffer :: "'k KeyFuncs \<Rightarrow> 'k list \<Rightarrow> bool" where
  "KeysDiffer kf [] = True"
| "KeysDiffer kf (k # ks) =
     (list_all (\<lambda>k'. \<not> Matches kf k k' \<and> \<not> Matches kf k' k) ks \<and> KeysDiffer kf ks)"

text \<open>
  The states a map can be in. The free list names tombstones only, each once; the hash
  chain names the live elements, each once; every live element is stored under the
  hash of its key; and when duplicate keys are disallowed no two live elements have
  equal keys. The empty map is such a state and \<open>Add\<close>, \<open>Remove\<close> and \<open>FindOrAdd\<close> keep
  a map in such states (lemmas \<open>MapState_EmptyMap\<close>, \<open>MapState_Add\<close>,
  \<open>MapState_Remove\<close>, \<open>MapState_FindOrAdd\<close>).
\<close>

definition FreeListOk :: "('k, 'v) TSet \<Rightarrow> bool" where
  "FreeListOk s =
     (distinct (FreeList s)
      \<and> list_all (\<lambda>ElemId. ElemId < length (Elements s) \<and> Elements s ! ElemId = None)
           (FreeList s))"

definition HashChainOk :: "('k, 'v) TSet \<Rightarrow> bool" where
  "HashChainOk s =
     (distinct (HashChain s)
      \<and> list_all (\<lambda>ElemId. slot_at s ElemId \<noteq> None) (HashChain s)
      \<and> list_all (\<lambda>ElemId. Elements s ! ElemId = None \<or> ElemId \<in> set (HashChain s))
           [0..<length (Elements s)])"

definition HashesOk :: "'k KeyFuncs \<Rightarrow> ('k, 'v) TSet \<Rightarrow> bool" where
  "HashesOk kf s =
     list_all (\<lambda>e. KeyHash e = GetKeyHash kf (Key (Pair e))) (live (Elements s))"

definition KeysUnique :: "'k KeyFuncs \<Rightarrow> ('k, 'v) TSet \<Rightarrow> bool" where
  "KeysUnique kf s = (bAllowDuplicateKeys kf \<or> KeysDiffer kf (map Key (set_Iterate s)))"

definition MapState :: "'k KeyFuncs \<Rightarrow> ('k, 'v) TMapBase \<Rightarrow> bool" where
  "MapState kf m =
     (FreeListOk (Pairs m) \<and> HashChainOk (Pairs m) \<and> HashesOk kf (Pairs m)
      \<and> KeysUnique kf (Pairs m))"

text \<open>
  Key functions for string keys, for the examples; the hash of a string is its length.
  \<open>ExampleKeyFuncs\<close> compare strings character by character and disallow duplicate
  keys; \<open>ExampleMultiKeyFuncs\<close> allow them. \<open>ExampleIgnoreCaseKeyFuncs\<close> compare strings
  without regard to the case of the letters A to Z, as the equality of a string type may.
\<close>

definition ExampleKeyFuncs :: "string KeyFuncs" where
  "ExampleKeyFuncs =
     \<lparr>GetKeyHash = (\<lambda>k. of_nat (length k)), Matches = (\<lambda>a b. a = b),
      bAllowDuplicateKeys = False\<rparr>"

definition ExampleMultiKeyFuncs :: "string KeyFuncs" where
  "ExampleMultiKeyFuncs = ExampleKeyFuncs\<lparr>bAllowDuplicateKeys := True\<rparr>"

definition ToLower :: "char \<Rightarrow> char" where
  "ToLower c =
     (case map_of (zip ''ABCDEFGHIJKLMNOPQRSTUVWXYZ'' ''abcdefghijklmnopqrstuvwxyz'') c of
        Some l \<Rightarrow> l
      | None \<Rightarrow> c)"

definition ExampleIgnoreCaseKeyFuncs :: "string KeyFuncs" where
  "ExampleIgnoreCaseKeyFuncs =
     \<lparr>GetKeyHash = (\<lambda>k. of_nat (length k)),
      Matches = (\<lambda>a b. map ToLower a = map ToLower b),
      bAllowDuplicateKeys = False\<rparr>"

section \<open>Properties of the allocator\<close>

subsection \<open>Reading the words of the size check as numbers\<close>

lemma unat_MAX_int32: "32 \<le> LENGTH('s::len) \<Longrightarrow> unat (MAX_int32 :: 's word) = 2147483647"
proof -
  assume a: "32 \<le> LENGTH('s)"
  have "(2147483647::nat) < 2 ^ 32" by simp
  also have "(2::nat) ^ 32 \<le> 2 ^ LENGTH('s)" using a by (rule power_increasing) simp
  finally have "(2147483647::nat) < 2 ^ LENGTH('s)" .
  then show ?thesis
    unfolding MAX_int32_def
    by (simp add: unat_eq_nat_uint uint_word_of_int nat_mod_distrib take_bit_eq_mod)
qed

lemma unat_SizeType_Max:
  "LENGTH('i::len) \<le> LENGTH('s::len) \<Longrightarrow>
     unat (SizeType_Max TYPE('i) :: 's word) = 2 ^ (LENGTH('i) - 1) - 1"
proof -
  assume a: "LENGTH('i) \<le> LENGTH('s)"
  have "(2::nat) ^ (LENGTH('i) - 1) \<le> 2 ^ LENGTH('s)" using a by (intro power_increasing) auto
  then have "(2::nat) ^ (LENGTH('i) - 1) - 1 < 2 ^ LENGTH('s)"
    by (metis diff_less less_le_trans less_numeral_extra(1) zero_less_numeral zero_less_power)
  then show ?thesis
    unfolding SizeType_Max_def by (intro of_nat_inverse refl)
qed

lemma sint_nonneg_uint:
  fixes n :: "'i::len word"
  assumes "0 \<le> sint n" shows "uint n = sint n"
proof -
  have "sint n < 2 ^ (LENGTH('i) - Suc 0)" by (rule sint_less)
  also have "(2::int) ^ (LENGTH('i) - Suc 0) \<le> 2 ^ LENGTH('i)" by (intro power_increasing) auto
  finally have "sint n < 2 ^ LENGTH('i)" .
  with assms have "take_bit LENGTH('i) (sint n) = sint n" by (simp add: take_bit_int_eq_self)
  then show ?thesis by (simp add: uint_sint)
qed

lemma unat_nonneg: "0 \<le> sint (n::'i::len word) \<Longrightarrow> unat n = nat (sint n)"
  by (simp add: unat_eq_nat_uint sint_nonneg_uint)

lemma scast_nonneg: "0 \<le> sint (n::'i::len word) \<Longrightarrow> (scast n :: 's::len word) = ucast n"
  by (simp add: scast_eq sint_nonneg_uint [symmetric])

lemma unat_ucast_up:
  fixes n :: "'i::len word"
  assumes "LENGTH('i) \<le> LENGTH('s::len)"
  shows "unat (ucast n :: 's word) = unat n"
proof -
  have "unat n < 2 ^ LENGTH('i)" by (rule unsigned_less)
  also have "(2::nat) ^ LENGTH('i) \<le> 2 ^ LENGTH('s)" using assms by (intro power_increasing) auto
  finally have "take_bit LENGTH('s) (unat n) = unat n" by (simp add: take_bit_nat_eq_self)
  then show ?thesis by (simp add: unsigned_ucast_eq)
qed

lemma gt_div_iff_mult: "0 < (b::nat) \<Longrightarrow> (M div b < n) = (M < n * b)"
  by (simp add: div_less_iff_less_mult)

lemma bInvalidResize_iff:
  fixes n :: "'i::len word" and b :: "'s::len word"
  assumes le: "LENGTH('i) \<le> LENGTH('s)" and s32: "32 \<le> LENGTH('s)"
  shows "bInvalidResize n b \<longleftrightarrow>
           sint n < 0 \<or> unat b = 0 \<or> 2147483647 < unat b \<or>
           (LENGTH('i) = LENGTH('s) \<and> 2 ^ (LENGTH('i) - 1) - 1 < nat (sint n) * unat b)"
proof (cases "sint n < 0 \<or> unat b = 0 \<or> 2147483647 < unat b")
  case True
  then have "n <s 0 \<or> b < 1 \<or> b > MAX_int32"
    by (auto simp: word_sless_alt word_less_nat_alt unat_MAX_int32 [OF s32])
  then show ?thesis using True by (auto simp: bInvalidResize_def Let_def)
next
  case False
  then have nn: "0 \<le> sint n" and bpos: "0 < unat b" and bsmall: "unat b \<le> 2147483647"
    by auto
  have b0: "\<not> (n <s 0 \<or> b < 1 \<or> b > MAX_int32)"
    using False by (auto simp: word_sless_alt word_less_nat_alt unat_MAX_int32 [OF s32])
  have "((ucast n :: 's word) > SizeType_Max TYPE('i) div b)
        = (2 ^ (LENGTH('i) - 1) - 1 < nat (sint n) * unat b)"
    using bpos
    by (simp add: word_less_nat_alt unat_div unat_ucast_up [OF le] unat_SizeType_Max [OF le]
        unat_nonneg [OF nn] gt_div_iff_mult)
  then show ?thesis using False b0 by (auto simp: bInvalidResize_def Let_def)
qed

lemma Count_exact:
  fixes n :: "'i::len word" and b :: "'s::len word"
  assumes le: "LENGTH('i) \<le> LENGTH('s)" and s32: "32 \<le> LENGTH('s)"
    and ok: "\<not> bInvalidResize n b"
    and w: "LENGTH('i) = LENGTH('s) \<or> LENGTH('i) + 30 \<le> LENGTH('s)"
  shows "unat (scast n * b :: 's word) = nat (sint n) * unat b"
proof -
  from ok have nn: "0 \<le> sint n" and bsmall: "unat b \<le> 2147483647"
    and eqc: "LENGTH('i) = LENGTH('s) \<Longrightarrow> nat (sint n) * unat b \<le> 2 ^ (LENGTH('i) - 1) - 1"
    unfolding bInvalidResize_iff [OF le s32] by auto
  have un: "unat (scast n :: 's word) = nat (sint n)"
    by (simp add: scast_nonneg [OF nn] unat_ucast_up [OF le] unat_nonneg [OF nn])
  have "nat (sint n) * unat b < 2 ^ LENGTH('s)"
  proof (cases "LENGTH('i) = LENGTH('s)")
    case True
    have "nat (sint n) * unat b \<le> 2 ^ (LENGTH('i) - 1) - 1" by (rule eqc [OF True])
    also have "\<dots> < (2::nat) ^ (LENGTH('i) - 1)" by simp
    also have "\<dots> \<le> 2 ^ LENGTH('s)" using True by (intro power_increasing) auto
    finally show ?thesis .
  next
    case False
    with w have w30: "LENGTH('i) + 30 \<le> LENGTH('s)" by simp
    have "sint n < 2 ^ (LENGTH('i) - Suc 0)" by (rule sint_less)
    then have "nat (sint n) < 2 ^ (LENGTH('i) - 1)" using nn
      by (simp add: nat_less_iff)
    moreover have "unat b < 2 ^ 31" using bsmall by simp
    ultimately have "nat (sint n) * unat b < 2 ^ (LENGTH('i) - 1) * 2 ^ 31"
      by (intro mult_strict_mono) auto
    also have "\<dots> = (2::nat) ^ (LENGTH('i) - 1 + 31)" by (simp add: power_add)
    also have "\<dots> \<le> 2 ^ LENGTH('s)"
    proof (intro power_increasing)
      have "0 < LENGTH('i)" by simp
      with w30 show "LENGTH('i) - 1 + 31 \<le> LENGTH('s)" by arith
    qed simp
    finally show ?thesis .
  qed
  then show ?thesis using un by (metis unat_mult_lem)
qed

subsection \<open>Resizing\<close>

text \<open>
  C10. When the allocator owns no block (\<open>Data\<close> is null) and the requested
  \<open>NumElements\<close> is 0, both overloads of \<open>ResizeAllocation\<close> return at once: no call of
  \<open>Realloc\<close>, no fatal diagnostic, \<open>Data\<close> still null, for every
  \<open>NumBytesPerElement\<close>, zero included, and for every \<open>PreviousNumElements\<close>.
\<close>

theorem ResizeAllocation_null_zero_returns:
  "ResizeAllocation Realloc nullptr PreviousNumElements 0 NumBytesPerElement = Returned nullptr []
   \<and> ResizeAllocationAligned Realloc nullptr PreviousNumElements 0 NumBytesPerElement
        AlignmentOfElement = Returned nullptr []
   \<and> ResizeAllocation Realloc nullptr PreviousNumElements 0 0 = Returned nullptr []"
  by (simp add: ResizeAllocation_def ResizeAllocationAligned_def ResizeAllocationImpl_def)

theorem ResizeAllocation_null_zero_returns_witness:
  "ResizeAllocation (\<lambda>p c a. 1) nullptr (5 :: 32 word) 0 (0 :: 64 word) = Returned nullptr []"
  using ResizeAllocation_null_zero_returns [of "\<lambda>p c a. 1" "5 :: 32 word" "0 :: 64 word"]
  by simp

text \<open>
  C3, as stated, fails in both directions (32-bit index, 64-bit \<open>SIZE_T\<close>). With no
  block and a count of 0 the element size 0 is not reported: the call returns without a
  diagnostic. With a count of 1 and an element size of \<open>2^31\<close> bytes the count is not
  negative, the size is not zero and the product fits the size type, and yet the call is
  fatal.
\<close>

theorem ResizeAllocation_fatal_iff_counterexample:
  "ResizeAllocation (\<lambda>p c a. 1) nullptr (0 :: 32 word) (0 :: 32 word) (0 :: 64 word)
     = Returned nullptr []
   \<and> ResizeAllocation (\<lambda>p c a. 1) nullptr (0 :: 32 word) (1 :: 32 word) (2147483648 :: 64 word)
     = Fatal 32 1 2147483648
   \<and> nat (sint (1 :: 32 word)) * unat (2147483648 :: 64 word) < 2 ^ 64"
  by (simp add: ResizeAllocation_def ResizeAllocationImpl_def bInvalidResize_def MAX_int32_def
      nullptr_def)

text \<open>
  C3, amended. On a platform whose \<open>SIZE_T\<close> has at least 32 bits and is at least as
  wide as the index type (the \<open>static_assert\<close> of the source), each overload of
  \<open>ResizeAllocation\<close> does nothing when there is no block and the count is 0; otherwise it
  calls the fatal hook with the index width, the count and the element size exactly when
  the count is negative, the element size is zero, the element size exceeds
  \<open>MAX_int32\<close>, or (index type as wide as \<open>SIZE_T\<close>) the byte size exceeds the largest
  value of the index type; otherwise it makes one \<open>Realloc\<close> call for the product. No
  build flag takes part. When the index type is as wide as \<open>SIZE_T\<close> or at least 30 bits
  narrower, the product of a call that is not fatal is the exact byte size: it does not
  wrap.
\<close>

theorem ResizeAllocation_validation:
  fixes NumElements :: "'i::len word" and NumBytesPerElement :: "'s::len word"
  assumes "LENGTH('i) \<le> LENGTH('s)" and "32 \<le> LENGTH('s)"
  shows
    "(let Invalid =
         (sint NumElements < 0 \<or> unat NumBytesPerElement = 0
          \<or> 2147483647 < unat NumBytesPerElement
          \<or> (LENGTH('i) = LENGTH('s)
              \<and> 2 ^ (LENGTH('i) - 1) - 1 < nat (sint NumElements) * unat NumBytesPerElement));
         Count = scast NumElements * NumBytesPerElement
      in ResizeAllocation Realloc Data PreviousNumElements NumElements NumBytesPerElement =
           (if Data = nullptr \<and> NumElements = 0 then Returned Data []
            else if Invalid then Fatal LENGTH('i) NumElements NumBytesPerElement
            else Returned (Realloc Data Count None) [ReallocCall Data Count None])
         \<and> ResizeAllocationAligned Realloc Data PreviousNumElements NumElements NumBytesPerElement
             AlignmentOfElement =
           (if Data = nullptr \<and> NumElements = 0 then Returned Data []
            else if Invalid then Fatal LENGTH('i) NumElements NumBytesPerElement
            else Returned (Realloc Data Count (Some AlignmentOfElement))
                   [ReallocCall Data Count (Some AlignmentOfElement)])
         \<and> (\<not> Invalid \<and> (LENGTH('i) = LENGTH('s) \<or> LENGTH('i) + 30 \<le> LENGTH('s))
              \<longrightarrow> unat Count = nat (sint NumElements) * unat NumBytesPerElement))"
proof -
  note iff = bInvalidResize_iff [OF assms, of NumElements NumBytesPerElement]
  have exact: "unat (scast NumElements * NumBytesPerElement :: 's word)
                 = nat (sint NumElements) * unat NumBytesPerElement"
    if "\<not> bInvalidResize NumElements NumBytesPerElement"
      and "LENGTH('i) = LENGTH('s) \<or> LENGTH('i) + 30 \<le> LENGTH('s)"
    using Count_exact [OF assms that] .
  show ?thesis
    unfolding Let_def ResizeAllocation_def ResizeAllocationAligned_def ResizeAllocationImpl_def
      iff [symmetric]
    using exact by auto
qed

theorem ResizeAllocation_validation_witness:
  "ResizeAllocation (\<lambda>p c a. 1) nullptr (0 :: 32 word) (3 :: 32 word) (4 :: 64 word)
     = Returned 1 [ReallocCall nullptr 12 None]
   \<and> ResizeAllocation (\<lambda>p c a. 1) nullptr (0 :: 32 word) (- 1 :: 32 word) (4 :: 64 word)
     = Fatal 32 (- 1) 4
   \<and> unat (scast (3 :: 32 word) * (4 :: 64 word) :: 64 word) = 12"
  using ResizeAllocation_validation [where 'i = 32 and 's = 64 and NumElements = 3
      and NumBytesPerElement = 4 and Realloc = "\<lambda>p c a. 1" and Data = nullptr
      and PreviousNumElements = 0]
    ResizeAllocation_validation [where 'i = 32 and 's = 64 and NumElements = "- 1"
      and NumBytesPerElement = 4 and Realloc = "\<lambda>p c a. 1" and Data = nullptr
      and PreviousNumElements = 0]
  by (simp add: Let_def)

text \<open>
  Why the exactness of the product depends on the widths: an index type narrower than
  \<open>SIZE_T\<close> gets no check of the product, and with a 16-bit index on a 32-bit
  \<open>SIZE_T\<close> a call that is not fatal can ask \<open>Realloc\<close> for a wrapped size.
\<close>

lemma ResizeAllocation_narrow_index_wraps:
  "ResizeAllocation (\<lambda>p c a. 1) nullptr (0 :: 16 word) (32767 :: 16 word) (2147483647 :: 32 word)
     = Returned 1 [ReallocCall nullptr 2147450881 None]
   \<and> nat (sint (32767 :: 16 word)) * unat (2147483647 :: 32 word) = 70366596661249"
  by (simp add: ResizeAllocation_def ResizeAllocationImpl_def bInvalidResize_def MAX_int32_def
      nullptr_def word_sless_alt)

subsection \<open>Moving\<close>

text \<open>
  C7, as stated, fails on its second half: a destination that already holds a block is
  not rejected by any check, in a debug build either. With the destination at address 1
  holding block 7 and the source at address 2 holding block 9, the move goes through,
  block 7 is handed to \<open>Free\<close>, the destination holds 9 and the source is null.
\<close>

theorem MoveToEmpty_destination_check_counterexample:
  "(\<lambda>a. if a = 1 then 7 else if a = 2 then 9 else nullptr) (1 :: addr) \<noteq> nullptr
   \<and> (case MoveToEmpty True (\<lambda>a. if a = 1 then 7 else if a = 2 then 9 else nullptr) 1 2 of
         CheckFailed \<Rightarrow> False
       | Moved Data' freed \<Rightarrow> Data' 1 = 9 \<and> Data' 2 = nullptr \<and> freed = [7])"
  by (simp add: MoveToEmpty_def MoveToEmptyFromOtherAllocator_def nullptr_def)

text \<open>
  C7, amended. For two different allocator objects, \<open>MoveToEmpty\<close> and
  \<open>MoveToEmptyFromOtherAllocator\<close> leave in the destination the block pointer the
  source had and null in the source, touch no other object, and first hand the block the
  destination held, if any, to \<open>Free\<close>: the destination need not be without allocation,
  in any build. The one internal check, compiled in for debug builds, is that the
  destination is not the source object itself.
\<close>

theorem MoveToEmpty_transfers_block:
  "(this \<noteq> Other \<longrightarrow>
      (\<exists>Data'. MoveToEmpty bDoGuardSlow Data this Other
                  = Moved Data' (if Data this \<noteq> nullptr then [Data this] else [])
               \<and> MoveToEmptyFromOtherAllocator bDoGuardSlow Data this Other
                  = Moved Data' (if Data this \<noteq> nullptr then [Data this] else [])
               \<and> Data' this = Data Other \<and> Data' Other = nullptr
               \<and> (\<forall>a. a \<noteq> this \<and> a \<noteq> Other \<longrightarrow> Data' a = Data a)))
   \<and> MoveToEmpty True Data this this = CheckFailed
   \<and> MoveToEmptyFromOtherAllocator True Data this this = CheckFailed"
  by (simp add: MoveToEmpty_def MoveToEmptyFromOtherAllocator_def Let_def)

theorem MoveToEmpty_transfers_block_witness:
  "\<exists>Data'. MoveToEmpty False (\<lambda>a. if a = 2 then 9 else nullptr) 1 2 = Moved Data' []
      \<and> Data' 1 = 9 \<and> Data' 2 = nullptr"
  using MoveToEmpty_transfers_block [of 1 2 False "\<lambda>a. if a = 2 then 9 else nullptr"]
  by (auto simp: nullptr_def)


section \<open>Properties of the sparse element set\<close>

subsection \<open>Key functions\<close>

lemma Matches_refl: "KeyFuncsOk kf \<Longrightarrow> Matches kf a a"
  by (simp add: KeyFuncsOk_def)

lemma Matches_sym: "KeyFuncsOk kf \<Longrightarrow> Matches kf a b \<Longrightarrow> Matches kf b a"
  unfolding KeyFuncsOk_def by blast

lemma Matches_trans:
  "KeyFuncsOk kf \<Longrightarrow> Matches kf a b \<Longrightarrow> Matches kf b c \<Longrightarrow> Matches kf a c"
  unfolding KeyFuncsOk_def by blast

lemma Matches_hash: "KeyFuncsOk kf \<Longrightarrow> Matches kf a b \<Longrightarrow> GetKeyHash kf a = GetKeyHash kf b"
  unfolding KeyFuncsOk_def by blast

lemma Matches_cong:
  assumes "KeyFuncsOk kf" and "Matches kf k k'"
  shows "Matches kf a k' = Matches kf a k"
  using assms Matches_sym Matches_trans by metis

lemma KeyFuncsOk_equality: "Matches kf = (\<lambda>a b. a = b) \<Longrightarrow> KeyFuncsOk kf"
  by (simp add: KeyFuncsOk_def)

lemma KeyFuncsOk_ExampleKeyFuncs: "KeyFuncsOk ExampleKeyFuncs"
  by (simp add: KeyFuncsOk_def ExampleKeyFuncs_def)

lemma KeyFuncsOk_ExampleMultiKeyFuncs: "KeyFuncsOk ExampleMultiKeyFuncs"
  by (simp add: KeyFuncsOk_def ExampleMultiKeyFuncs_def ExampleKeyFuncs_def)

lemma KeyFuncsOk_ExampleIgnoreCaseKeyFuncs: "KeyFuncsOk ExampleIgnoreCaseKeyFuncs"
  by (auto simp: KeyFuncsOk_def ExampleIgnoreCaseKeyFuncs_def dest: map_eq_imp_length_eq)

subsection \<open>Keys that differ pairwise\<close>

lemma KeysDiffer_append:
  "KeysDiffer kf (as @ bs) \<longleftrightarrow>
     KeysDiffer kf as \<and> KeysDiffer kf bs
     \<and> (\<forall>a\<in>set as. \<forall>b\<in>set bs. \<not> Matches kf a b \<and> \<not> Matches kf b a)"
  by (induction as) (auto simp: list_all_iff)

lemma KeysDiffer_middle:
  "KeysDiffer kf (as @ k # bs) \<longleftrightarrow>
     KeysDiffer kf (as @ bs)
     \<and> (\<forall>a\<in>set as \<union> set bs. \<not> Matches kf a k \<and> \<not> Matches kf k a)"
  by (auto simp: KeysDiffer_append list_all_iff)

lemma KeysDiffer_filter: "KeysDiffer kf ks \<Longrightarrow> KeysDiffer kf (filter P ks)"
  by (induction ks) (auto simp: list_all_iff)

lemma KeysDiffer_equality:
  "Matches kf = (\<lambda>a b. a = b) \<Longrightarrow> KeysDiffer kf ks = distinct ks"
  by (induction ks) (auto simp: list_all_iff)

lemma KeysDiffer_unique:
  assumes "KeysDiffer kf (map f ps)" and "p \<in> set ps" and "q \<in> set ps"
    and "Matches kf (f p) (f q)"
  shows "p = q"
  using assms by (induction ps) (auto simp: list_all_iff)

lemma KeysDiffer_filter_le:
  assumes ok: "KeyFuncsOk kf" and d: "KeysDiffer kf (map f ps)"
  shows "length (filter (\<lambda>p. Matches kf (f p) k) ps) \<le> 1"
  using d
proof (induction ps)
  case Nil
  show ?case by simp
next
  case (Cons p ps)
  show ?case
  proof (cases "Matches kf (f p) k")
    case False
    with Cons show ?thesis by simp
  next
    case True
    have "\<not> Matches kf (f q) k" if "q \<in> set ps" for q
    proof
      assume "Matches kf (f q) k"
      with True ok have "Matches kf (f p) (f q)"
        using Matches_sym Matches_trans by metis
      with Cons.prems that show False by (simp add: list_all_iff)
    qed
    then have "filter (\<lambda>p. Matches kf (f p) k) ps = []" by (simp add: filter_empty_conv)
    with True show ?thesis by simp
  qed
qed

subsection \<open>Slot arrays\<close>

lemma set_live: "set (live xs) = {e. Some e \<in> set xs}"
  by (induction xs) (auto split: option.splits)

lemma live_append: "live (xs @ ys) = live xs @ live ys"
  by (induction xs) (auto split: option.splits)

lemma live_update_None:
  assumes "i < length xs" and "xs ! i = None"
  shows "\<exists>A B. live xs = A @ B \<and> live (xs[i := Some e]) = A @ e # B"
proof -
  have "xs = take i xs @ None # drop (Suc i) xs"
    using assms by (metis id_take_nth_drop)
  then have 1: "live xs = live (take i xs) @ live (drop (Suc i) xs)"
    by (metis live.simps(2) live_append option.simps(4))
  have "xs[i := Some e] = take i xs @ Some e # drop (Suc i) xs"
    using assms by (simp add: upd_conv_take_nth_drop)
  then have 2: "live (xs[i := Some e]) = live (take i xs) @ e # live (drop (Suc i) xs)"
    by (simp add: live_append)
  from 1 2 show ?thesis by blast
qed

lemma live_update_Some:
  assumes "i < length xs" and "xs ! i = Some d"
  shows "\<exists>A B. live xs = A @ d # B \<and> live (xs[i := Some e]) = A @ e # B"
proof -
  have "xs = take i xs @ Some d # drop (Suc i) xs"
    using assms by (metis id_take_nth_drop)
  then have 1: "live xs = live (take i xs) @ d # live (drop (Suc i) xs)"
    by (metis live.simps(2) live_append option.simps(5))
  have "xs[i := Some e] = take i xs @ Some e # drop (Suc i) xs"
    using assms by (simp add: upd_conv_take_nth_drop)
  then have 2: "live (xs[i := Some e]) = live (take i xs) @ e # live (drop (Suc i) xs)"
    by (simp add: live_append)
  from 1 2 show ?thesis by blast
qed

lemma live_map_remove:
  "live (map (\<lambda>slot. if has_key kf k slot then None else slot) xs)
     = filter (\<lambda>e. \<not> Matches kf (Key (Pair e)) k) (live xs)"
  by (induction xs) (auto simp: has_key_def split: option.splits)

lemma length_filter_has_key:
  "length (filter (has_key kf k) xs)
     = length (filter (\<lambda>e. Matches kf (Key (Pair e)) k) (live xs))"
  by (induction xs) (auto simp: has_key_def split: option.splits)

lemma length_filter_indices:
  "length (filter (\<lambda>i. P (xs ! i)) [0..<length xs]) = length (filter P xs)"
proof -
  let ?ids = "filter (\<lambda>i. P (xs ! i)) [0..<length xs]"
  have "card (set ?ids) = length ?ids" by (rule distinct_card) simp
  moreover have "set ?ids = {i. i < length xs \<and> P (xs ! i)}" by auto
  ultimately show ?thesis by (simp add: length_filter_conv_card)
qed

lemma slot_at_Some_iff:
  "slot_at s i = Some e \<longleftrightarrow> i < length (Elements s) \<and> Elements s ! i = Some e"
  by (simp add: slot_at_def)

lemma slot_at_live: "slot_at s i = Some e \<Longrightarrow> e \<in> set (live (Elements s))"
  unfolding slot_at_Some_iff set_live by (metis mem_Collect_eq nth_mem)

lemma live_slot_at: "e \<in> set (live (Elements s)) \<Longrightarrow> \<exists>i. slot_at s i = Some e"
  by (auto simp: slot_at_Some_iff set_live in_set_conv_nth)

lemma has_key_live_iff:
  "(\<exists>x\<in>set xs. has_key kf k x) \<longleftrightarrow> (\<exists>e\<in>set (live xs). Matches kf (Key (Pair e)) k)"
  by (auto simp: set_live has_key_def split: option.splits)

lemma HashChainOk_iff:
  "HashChainOk s \<longleftrightarrow>
     distinct (HashChain s) \<and> set (HashChain s) = {i. slot_at s i \<noteq> None}"
proof -
  have a: "(\<forall>i\<in>set (HashChain s). slot_at s i \<noteq> None)
             \<longleftrightarrow> set (HashChain s) \<subseteq> {i. slot_at s i \<noteq> None}"
    by blast
  have b: "(\<forall>i\<in>set [0..<length (Elements s)].
                Elements s ! i = None \<or> i \<in> set (HashChain s))
             \<longleftrightarrow> {i. slot_at s i \<noteq> None} \<subseteq> set (HashChain s)"
  proof
    assume l: "\<forall>i\<in>set [0..<length (Elements s)].
                 Elements s ! i = None \<or> i \<in> set (HashChain s)"
    show "{i. slot_at s i \<noteq> None} \<subseteq> set (HashChain s)"
    proof
      fix i assume "i \<in> {i. slot_at s i \<noteq> None}"
      then have "i < length (Elements s)" and "Elements s ! i \<noteq> None"
        by (simp_all add: slot_at_def split: if_splits)
      with l [rule_format, of i] show "i \<in> set (HashChain s)" by simp
    qed
  next
    assume r: "{i. slot_at s i \<noteq> None} \<subseteq> set (HashChain s)"
    show "\<forall>i\<in>set [0..<length (Elements s)].
            Elements s ! i = None \<or> i \<in> set (HashChain s)"
    proof
      fix i assume "i \<in> set [0..<length (Elements s)]"
      then have i: "i < length (Elements s)" by simp
      show "Elements s ! i = None \<or> i \<in> set (HashChain s)"
      proof (cases "Elements s ! i = None")
        case True
        then show ?thesis by simp
      next
        case False
        with i have "slot_at s i \<noteq> None" by (simp add: slot_at_def)
        with r show ?thesis by blast
      qed
    qed
  qed
  show ?thesis
    unfolding HashChainOk_def list_all_iff a b by blast
qed

subsection \<open>Lookup\<close>

lemma set_Find_SomeD:
  assumes "set_Find kf s k = Some i"
  shows "\<exists>d. slot_at s i = Some d \<and> Matches kf (Key (Pair d)) k"
    and "i \<in> set (HashChain s)"
proof -
  from assms have "has_key kf k (slot_at s i)" and i: "i \<in> set (HashChain s)"
    by (auto simp: set_Find_def find_Some_iff)
  then show "\<exists>d. slot_at s i = Some d \<and> Matches kf (Key (Pair d)) k"
    by (auto simp: has_key_def split: option.splits)
  show "i \<in> set (HashChain s)" by (rule i)
qed

lemma set_Contains_iff:
  "set_Contains kf s k \<longleftrightarrow> (\<exists>p\<in>set (set_Iterate s). Matches kf (Key p) k)"
  by (simp add: set_Contains_def list_ex_iff has_key_live_iff set_Iterate_def)

lemma set_Find_None_iff:
  assumes "HashChainOk s"
  shows "set_Find kf s k = None \<longleftrightarrow> \<not> (\<exists>p\<in>set (set_Iterate s). Matches kf (Key p) k)"
proof -
  have none: "\<not> has_key kf k None" by (simp add: has_key_def)
  have some: "has_key kf k (Some e) = Matches kf (Key (Pair e)) k" for e
    by (simp add: has_key_def)
  have "set_Find kf s k = None \<longleftrightarrow> (\<forall>i\<in>set (HashChain s). \<not> has_key kf k (slot_at s i))"
    by (auto simp: set_Find_def find_None_iff)
  also have "\<dots> \<longleftrightarrow> (\<forall>i. \<not> has_key kf k (slot_at s i))"
  proof
    assume a: "\<forall>i\<in>set (HashChain s). \<not> has_key kf k (slot_at s i)"
    show "\<forall>i. \<not> has_key kf k (slot_at s i)"
    proof
      fix i
      show "\<not> has_key kf k (slot_at s i)"
      proof (cases "slot_at s i")
        case None
        with none show ?thesis by simp
      next
        case (Some e)
        with assms have "i \<in> set (HashChain s)" by (simp add: HashChainOk_iff)
        with a show ?thesis by simp
      qed
    qed
  qed simp
  also have "\<dots> \<longleftrightarrow> (\<forall>e\<in>set (live (Elements s)). \<not> Matches kf (Key (Pair e)) k)"
  proof
    assume a: "\<forall>i. \<not> has_key kf k (slot_at s i)"
    show "\<forall>e\<in>set (live (Elements s)). \<not> Matches kf (Key (Pair e)) k"
    proof
      fix e assume "e \<in> set (live (Elements s))"
      then obtain i where "slot_at s i = Some e" using live_slot_at by blast
      with a [rule_format, of i] have "\<not> has_key kf k (Some e)" by simp
      then show "\<not> Matches kf (Key (Pair e)) k" unfolding some .
    qed
  next
    assume a: "\<forall>e\<in>set (live (Elements s)). \<not> Matches kf (Key (Pair e)) k"
    show "\<forall>i. \<not> has_key kf k (slot_at s i)"
    proof
      fix i
      show "\<not> has_key kf k (slot_at s i)"
      proof (cases "slot_at s i")
        case None
        with none show ?thesis by simp
      next
        case (Some e)
        from slot_at_live [OF Some] a have "\<not> Matches kf (Key (Pair e)) k" by simp
        then show ?thesis unfolding Some some .
      qed
    qed
  qed
  finally show ?thesis by (simp add: set_Iterate_def)
qed

lemma set_Find_Contains:
  "HashChainOk s \<Longrightarrow> set_Find kf s k \<noteq> None \<longleftrightarrow> set_Contains kf s k"
  by (simp add: set_Find_None_iff set_Contains_iff)

subsection \<open>Linking and replacing an element\<close>

lemma HashChainOk_link:
  assumes ch: "HashChainOk s" and r: "slot_at s r = None" and r': "slot_at s' r \<noteq> None"
    and others: "\<forall>j. j \<noteq> r \<longrightarrow> slot_at s' j = slot_at s j"
    and link: "HashChain s' = r # HashChain s"
  shows "HashChainOk s'"
proof -
  from ch have d: "distinct (HashChain s)" and c: "set (HashChain s) = {i. slot_at s i \<noteq> None}"
    by (simp_all add: HashChainOk_iff)
  from c r have "r \<notin> set (HashChain s)" by simp
  with d link have 1: "distinct (HashChain s')" by simp
  have "{i. slot_at s' i \<noteq> None} = insert r {i. slot_at s i \<noteq> None}"
  proof (rule set_eqI)
    fix j
    show "j \<in> {i. slot_at s' i \<noteq> None} \<longleftrightarrow> j \<in> insert r {i. slot_at s i \<noteq> None}"
    proof (cases "j = r")
      case True
      with r' show ?thesis by simp
    next
      case False
      with others have "slot_at s' j = slot_at s j" by simp
      with False show ?thesis by simp
    qed
  qed
  with c link have 2: "set (HashChain s') = {i. slot_at s' i \<noteq> None}" by simp
  from 1 2 show ?thesis by (simp add: HashChainOk_iff)
qed

lemma HashChainOk_same:
  assumes ch: "HashChainOk s"
    and same: "\<forall>j. slot_at s' j = None \<longleftrightarrow> slot_at s j = None"
    and link: "HashChain s' = HashChain s"
  shows "HashChainOk s'"
  using ch unfolding HashChainOk_iff link by (simp add: same)

lemma set_AddNew_effect:
  assumes ok: "FreeListOk s" and ch: "HashChainOk s" and eq: "set_AddNew s e = (r, s')"
  shows "slot_at s r = None \<and> slot_at s' r = Some e
    \<and> (\<forall>j. j \<noteq> r \<longrightarrow> slot_at s' j = slot_at s j)
    \<and> HashChain s' = r # HashChain s
    \<and> FreeListOk s' \<and> HashChainOk s'
    \<and> (\<exists>A B. live (Elements s) = A @ B \<and> live (Elements s') = A @ e # B)"
proof (cases "FreeList s")
  case Nil
  with eq have r: "r = length (Elements s)"
    and s': "s' = s\<lparr>Elements := Elements s @ [Some e],
                    HashChain := length (Elements s) # HashChain s\<rparr>"
    by (auto simp: set_AddNew_def)
  have 1: "slot_at s r = None" by (simp add: slot_at_def r)
  have 2: "slot_at s' r = Some e" by (simp add: slot_at_def r s')
  have 3: "\<forall>j. j \<noteq> r \<longrightarrow> slot_at s' j = slot_at s j"
    by (simp add: slot_at_def r s' nth_append)
  have 4: "HashChain s' = r # HashChain s" by (simp add: r s')
  have 5: "FreeListOk s'" using Nil by (simp add: FreeListOk_def s')
  have 6: "HashChainOk s'" using HashChainOk_link [OF ch 1 _ 3 4] 2 by simp
  have "live (Elements s') = live (Elements s) @ e # []"
    by (simp add: s' live_append)
  moreover have "live (Elements s) = live (Elements s) @ []" by simp
  ultimately have 7: "\<exists>A B. live (Elements s) = A @ B \<and> live (Elements s') = A @ e # B"
    by blast
  from 1 2 3 4 5 6 7 show ?thesis by blast
next
  case (Cons i fl)
  with eq have r: "r = i"
    and s': "s' = s\<lparr>Elements := (Elements s)[i := Some e], FreeList := fl,
                    HashChain := i # HashChain s\<rparr>"
    by (auto simp: set_AddNew_def)
  from ok Cons have i: "i < length (Elements s)" "Elements s ! i = None" "i \<notin> set fl"
    and fl: "distinct fl" "\<forall>j\<in>set fl. j < length (Elements s) \<and> Elements s ! j = None"
    by (auto simp: FreeListOk_def list_all_iff)
  have 1: "slot_at s r = None" using i by (simp add: slot_at_def r)
  have 2: "slot_at s' r = Some e" using i by (simp add: slot_at_def r s')
  have 3: "\<forall>j. j \<noteq> r \<longrightarrow> slot_at s' j = slot_at s j"
    by (simp add: slot_at_def r s')
  have 4: "HashChain s' = r # HashChain s" by (simp add: r s')
  have 5: "FreeListOk s'"
    using i fl by (auto simp: FreeListOk_def list_all_iff s' nth_list_update)
  have 6: "HashChainOk s'" using HashChainOk_link [OF ch 1 _ 3 4] 2 by simp
  have 7: "\<exists>A B. live (Elements s) = A @ B \<and> live (Elements s') = A @ e # B"
    using live_update_None [OF i(1,2)] by (simp add: s')
  from 1 2 3 4 5 6 7 show ?thesis by blast
qed

lemma set_Replace_effect:
  assumes ok: "FreeListOk s" and ch: "HashChainOk s" and d: "slot_at s i = Some d"
  shows "slot_at (set_Replace s i v) i = Some (d\<lparr>Pair := (Pair d)\<lparr>Value := v\<rparr>\<rparr>)
    \<and> (\<forall>j. j \<noteq> i \<longrightarrow> slot_at (set_Replace s i v) j = slot_at s j)
    \<and> HashChain (set_Replace s i v) = HashChain s
    \<and> FreeListOk (set_Replace s i v) \<and> HashChainOk (set_Replace s i v)
    \<and> (\<exists>A B. live (Elements s) = A @ d # B
           \<and> live (Elements (set_Replace s i v))
               = A @ d\<lparr>Pair := (Pair d)\<lparr>Value := v\<rparr>\<rparr> # B)"
proof -
  let ?d = "d\<lparr>Pair := (Pair d)\<lparr>Value := v\<rparr>\<rparr>"
  let ?s = "set_Replace s i v"
  from d have i: "i < length (Elements s)" and di: "Elements s ! i = Some d"
    by (simp_all add: slot_at_Some_iff)
  have E: "Elements ?s = (Elements s)[i := Some ?d]"
    by (simp add: set_Replace_def di)
  have 1: "slot_at ?s i = Some ?d" using i by (simp add: slot_at_def E)
  have 2: "\<forall>j. j \<noteq> i \<longrightarrow> slot_at ?s j = slot_at s j" by (simp add: slot_at_def E)
  have 3: "HashChain ?s = HashChain s" by (simp add: set_Replace_def)
  have fl: "FreeList ?s = FreeList s" by (simp add: set_Replace_def)
  have "\<forall>j\<in>set (FreeList s). j \<noteq> i"
    using ok di by (auto simp: FreeListOk_def list_all_iff)
  then have 4: "FreeListOk ?s"
    using ok unfolding FreeListOk_def list_all_iff fl E by (auto simp: nth_list_update)
  have "\<forall>j. slot_at ?s j = None \<longleftrightarrow> slot_at s j = None"
  proof
    fix j
    show "slot_at ?s j = None \<longleftrightarrow> slot_at s j = None"
      using 1 2 d by (cases "j = i") simp_all
  qed
  from HashChainOk_same [OF ch this 3] have 5: "HashChainOk ?s" .
  have 6: "\<exists>A B. live (Elements s) = A @ d # B \<and> live (Elements ?s) = A @ ?d # B"
    unfolding E using live_update_Some [OF i di] .
  from 1 2 3 4 5 6 show ?thesis by blast
qed

subsection \<open>Emplace\<close>

lemma set_Emplace_effect:
  assumes ok: "FreeListOk s" and ch: "HashChainOk s" and eq: "set_Emplace kf s k v = (r, s')"
  shows "FreeListOk s' \<and> HashChainOk s'
    \<and> (\<forall>j. j \<noteq> r \<longrightarrow> slot_at s' j = slot_at s j)
    \<and> ((\<not> bAllowDuplicateKeys kf \<and> set_Find kf s k = Some r
         \<and> HashChain s' = HashChain s
         \<and> (\<exists>A B d. slot_at s r = Some d \<and> Matches kf (Key (Pair d)) k
              \<and> slot_at s' r = Some (d\<lparr>Pair := (Pair d)\<lparr>Value := v\<rparr>\<rparr>)
              \<and> live (Elements s) = A @ d # B
              \<and> live (Elements s') = A @ d\<lparr>Pair := (Pair d)\<lparr>Value := v\<rparr>\<rparr> # B))
       \<or> ((bAllowDuplicateKeys kf \<or> set_Find kf s k = None)
         \<and> HashChain s' = r # HashChain s \<and> slot_at s r = None
         \<and> slot_at s' r = Some \<lparr>Pair = \<lparr>Key = k, Value = v\<rparr>, KeyHash = GetKeyHash kf k\<rparr>
         \<and> (\<exists>A B. live (Elements s) = A @ B
              \<and> live (Elements s')
                  = A @ \<lparr>Pair = \<lparr>Key = k, Value = v\<rparr>, KeyHash = GetKeyHash kf k\<rparr> # B)))"
proof (cases "bAllowDuplicateKeys kf \<or> set_Find kf s k = None")
  case True
  then have "set_AddNew s \<lparr>Pair = \<lparr>Key = k, Value = v\<rparr>, KeyHash = GetKeyHash kf k\<rparr> = (r, s')"
    using eq by (auto simp: set_Emplace_def split: if_splits)
  from set_AddNew_effect [OF ok ch this] True show ?thesis by blast
next
  case False
  then obtain i where nd: "\<not> bAllowDuplicateKeys kf" and f: "set_Find kf s k = Some i" by auto
  with eq have r: "r = i" and s': "s' = set_Replace s i v" by (auto simp: set_Emplace_def)
  from set_Find_SomeD(1) [OF f] obtain d where d: "slot_at s i = Some d"
    and kd: "Matches kf (Key (Pair d)) k" by auto
  from set_Replace_effect [OF ok ch d, of v] nd f d kd show ?thesis
    unfolding r s' by blast
qed

lemma set_Emplace_FreeListOk:
  "FreeListOk s \<Longrightarrow> HashChainOk s \<Longrightarrow> FreeListOk (snd (set_Emplace kf s k v))"
  using set_Emplace_effect [of s kf k v] by (cases "set_Emplace kf s k v") auto

lemma set_Emplace_HashChainOk:
  "FreeListOk s \<Longrightarrow> HashChainOk s \<Longrightarrow> HashChainOk (snd (set_Emplace kf s k v))"
  using set_Emplace_effect [of s kf k v] by (cases "set_Emplace kf s k v") auto

lemma set_Emplace_cases:
  assumes ok: "FreeListOk s" and ch: "HashChainOk s" and eq: "set_Emplace kf s k v = (r, s')"
  obtains (old) A B d where "\<not> bAllowDuplicateKeys kf" and "set_Find kf s k = Some r"
      and "Matches kf (Key (Pair d)) k"
      and "live (Elements s) = A @ d # B"
      and "live (Elements s') = A @ d\<lparr>Pair := (Pair d)\<lparr>Value := v\<rparr>\<rparr> # B"
    | (new) A B where "bAllowDuplicateKeys kf \<or> set_Find kf s k = None"
      and "live (Elements s) = A @ B"
      and "live (Elements s')
             = A @ \<lparr>Pair = \<lparr>Key = k, Value = v\<rparr>, KeyHash = GetKeyHash kf k\<rparr> # B"
  using set_Emplace_effect [OF ok ch eq] by blast

lemma set_Emplace_HashesOk:
  assumes "FreeListOk s" and "HashChainOk s" and h: "HashesOk kf s"
  shows "HashesOk kf (snd (set_Emplace kf s k v))"
proof -
  obtain r s' where eq: "set_Emplace kf s k v = (r, s')" by (cases "set_Emplace kf s k v")
  from assms(1,2) eq show ?thesis
  proof (cases rule: set_Emplace_cases)
    case (old A B d)
    with h show ?thesis by (simp add: eq HashesOk_def)
  next
    case (new A B)
    with h show ?thesis by (simp add: eq HashesOk_def)
  qed
qed

lemma set_Emplace_KeysUnique:
  assumes "FreeListOk s" and ch: "HashChainOk s" and u: "KeysUnique kf s"
    and kf: "KeyFuncsOk kf"
  shows "KeysUnique kf (snd (set_Emplace kf s k v))"
proof (cases "bAllowDuplicateKeys kf")
  case True
  then show ?thesis by (simp add: KeysUnique_def)
next
  case nd: False
  with u have u: "KeysDiffer kf (map (\<lambda>e. Key (Pair e)) (live (Elements s)))"
    by (simp add: KeysUnique_def set_Iterate_def comp_def)
  obtain r s' where eq: "set_Emplace kf s k v = (r, s')" by (cases "set_Emplace kf s k v")
  from assms(1,2) eq have "KeysDiffer kf (map (\<lambda>e. Key (Pair e)) (live (Elements s')))"
  proof (cases rule: set_Emplace_cases)
    case (old A B d)
    with u show ?thesis by simp
  next
    case (new A B)
    with nd have "set_Find kf s k = None" by simp
    then have no: "\<forall>e\<in>set (A @ B). \<not> Matches kf (Key (Pair e)) k"
      using new(2) by (auto simp: set_Find_None_iff [OF ch] set_Iterate_def)
    then have "\<forall>e\<in>set (A @ B). \<not> Matches kf k (Key (Pair e))"
      using Matches_sym [OF kf] by blast
    with no u new show ?thesis by (auto simp: KeysDiffer_middle)
  qed
  then show ?thesis by (simp add: eq KeysUnique_def set_Iterate_def comp_def)
qed

lemma set_Emplace_Num:
  assumes "FreeListOk s" and ch: "HashChainOk s"
  shows "set_Num (snd (set_Emplace kf s k v))
         = (if \<not> bAllowDuplicateKeys kf \<and> set_Contains kf s k then set_Num s
            else Suc (set_Num s))"
proof -
  obtain r s' where eq: "set_Emplace kf s k v = (r, s')" by (cases "set_Emplace kf s k v")
  from assms eq show ?thesis
  proof (cases rule: set_Emplace_cases)
    case (old A B d)
    then have "set_Contains kf s k" using set_Find_Contains [OF ch, of kf k] by simp
    with old show ?thesis by (simp add: eq set_Num_def)
  next
    case (new A B)
    then have "bAllowDuplicateKeys kf \<or> \<not> set_Contains kf s k"
      using set_Find_Contains [OF ch, of kf k] by auto
    with new show ?thesis by (auto simp: eq set_Num_def)
  qed
qed

lemma set_Emplace_keys:
  assumes "FreeListOk s" and ch: "HashChainOk s"
  shows "set (map Key (set_Iterate (snd (set_Emplace kf s k v))))
         = (if \<not> bAllowDuplicateKeys kf \<and> set_Contains kf s k
            then set (map Key (set_Iterate s))
            else insert k (set (map Key (set_Iterate s))))"
proof -
  obtain r s' where eq: "set_Emplace kf s k v = (r, s')" by (cases "set_Emplace kf s k v")
  from assms eq show ?thesis
  proof (cases rule: set_Emplace_cases)
    case (old A B d)
    then have "set_Contains kf s k" using set_Find_Contains [OF ch, of kf k] by simp
    with old show ?thesis by (simp add: eq set_Iterate_def)
  next
    case (new A B)
    then have "bAllowDuplicateKeys kf \<or> \<not> set_Contains kf s k"
      using set_Find_Contains [OF ch, of kf k] by auto
    with new show ?thesis by (auto simp: eq set_Iterate_def)
  qed
qed

lemma set_Emplace_Find:
  assumes ok: "FreeListOk s" and ch: "HashChainOk s" and refl: "Matches kf k k"
    and eq: "set_Emplace kf s k v = (r, s')"
  shows "set_Find kf s' k = Some r
    \<and> (\<exists>p. set_Get s' r = Some p \<and> Matches kf (Key p) k \<and> Value p = v)"
proof -
  from set_Emplace_effect [OF ok ch eq]
  have others: "\<forall>j. j \<noteq> r \<longrightarrow> slot_at s' j = slot_at s j" by blast
  from set_Emplace_effect [OF ok ch eq]
  consider (old) d where "set_Find kf s k = Some r" "HashChain s' = HashChain s"
      "slot_at s r = Some d" "Matches kf (Key (Pair d)) k"
      "slot_at s' r = Some (d\<lparr>Pair := (Pair d)\<lparr>Value := v\<rparr>\<rparr>)"
    | (new) "HashChain s' = r # HashChain s"
      "slot_at s' r = Some \<lparr>Pair = \<lparr>Key = k, Value = v\<rparr>, KeyHash = GetKeyHash kf k\<rparr>"
    by blast
  then show ?thesis
  proof cases
    case old
    have "has_key kf k (slot_at s' j) = has_key kf k (slot_at s j)" for j
      using others old(3,4,5) by (cases "j = r") (simp_all add: has_key_def)
    then have "set_Find kf s' k = set_Find kf s k"
      by (simp add: set_Find_def old(2))
    with old show ?thesis by (simp add: set_Get_def)
  next
    case new
    with refl show ?thesis by (simp add: set_Find_def set_Get_def has_key_def)
  qed
qed

lemma set_Emplace_matching:
  assumes ok: "FreeListOk s" and ch: "HashChainOk s" and u: "KeysUnique kf s"
    and nd: "\<not> bAllowDuplicateKeys kf" and kf: "KeyFuncsOk kf"
  shows "Matches kf k k' \<Longrightarrow>
           map Value (filter (\<lambda>p. Matches kf (Key p) k')
             (set_Iterate (snd (set_Emplace kf s k v)))) = [v]"
    and "\<not> Matches kf k k' \<Longrightarrow>
           filter (\<lambda>p. Matches kf (Key p) k') (set_Iterate (snd (set_Emplace kf s k v)))
           = filter (\<lambda>p. Matches kf (Key p) k') (set_Iterate s)"
proof -
  obtain r s' where eq: "set_Emplace kf s k v = (r, s')" by (cases "set_Emplace kf s k v")
  from u nd have u: "KeysDiffer kf (map (\<lambda>e. Key (Pair e)) (live (Elements s)))"
    by (simp add: KeysUnique_def set_Iterate_def comp_def)
  let ?M = "\<lambda>e. Matches kf (Key (Pair e)) k'"
  from ok ch eq
  have "(Matches kf k k' \<longrightarrow>
           map (\<lambda>e. Value (Pair e)) (filter ?M (live (Elements s'))) = [v])
      \<and> (\<not> Matches kf k k' \<longrightarrow>
           filter ?M (live (Elements s')) = filter ?M (live (Elements s)))"
  proof (cases rule: set_Emplace_cases)
    case (old A B d)
    let ?d = "d\<lparr>Pair := (Pair d)\<lparr>Value := v\<rparr>\<rparr>"
    from u old(4)
    have others: "\<And>e. e \<in> set A \<union> set B \<Longrightarrow> \<not> Matches kf (Key (Pair e)) (Key (Pair d))"
      by (auto simp: KeysDiffer_middle)
    have dk: "Matches kf k (Key (Pair d))" using Matches_sym [OF kf old(3)] .
    show ?thesis
    proof (intro conjI impI)
      assume m: "Matches kf k k'"
      have "\<not> ?M e" if "e \<in> set A \<union> set B" for e
      proof
        assume "?M e"
        then have "Matches kf (Key (Pair e)) k" using Matches_cong [OF kf m] by simp
        then have "Matches kf (Key (Pair e)) (Key (Pair d))" using Matches_trans [OF kf _ dk] by blast
        with others [OF that] show False by simp
      qed
      then have "filter ?M A = []" and "filter ?M B = []" by (auto simp: filter_empty_conv)
      moreover have "?M ?d" using Matches_trans [OF kf old(3) m] by simp
      ultimately show "map (\<lambda>e. Value (Pair e)) (filter ?M (live (Elements s'))) = [v]"
        by (simp add: old(5))
    next
      assume m: "\<not> Matches kf k k'"
      have "\<not> Matches kf (Key (Pair d)) k'"
        using m Matches_trans [OF kf dk] by blast
      then show "filter ?M (live (Elements s')) = filter ?M (live (Elements s))"
        by (simp add: old(4,5))
    qed
  next
    case (new A B)
    with nd have "set_Find kf s k = None" by simp
    then have no: "\<And>e. e \<in> set A \<union> set B \<Longrightarrow> \<not> Matches kf (Key (Pair e)) k"
      using new(2) by (auto simp: set_Find_None_iff [OF ch] set_Iterate_def)
    show ?thesis
    proof (intro conjI impI)
      assume m: "Matches kf k k'"
      have "\<not> ?M e" if "e \<in> set A \<union> set B" for e
        using no [OF that] Matches_cong [OF kf m] by simp
      then have "filter ?M A = []" and "filter ?M B = []" by (auto simp: filter_empty_conv)
      with m show "map (\<lambda>e. Value (Pair e)) (filter ?M (live (Elements s'))) = [v]"
        by (simp add: new(3))
    next
      assume m: "\<not> Matches kf k k'"
      then show "filter ?M (live (Elements s')) = filter ?M (live (Elements s))"
        by (simp add: new(2,3))
    qed
  qed
  then show "Matches kf k k' \<Longrightarrow>
           map Value (filter (\<lambda>p. Matches kf (Key p) k')
             (set_Iterate (snd (set_Emplace kf s k v)))) = [v]"
    and "\<not> Matches kf k k' \<Longrightarrow>
           filter (\<lambda>p. Matches kf (Key p) k') (set_Iterate (snd (set_Emplace kf s k v)))
           = filter (\<lambda>p. Matches kf (Key p) k') (set_Iterate s)"
    by (simp_all add: eq set_Iterate_def filter_map comp_def)
qed

subsection \<open>Remove\<close>

lemma set_Remove_effect:
  assumes eq: "set_Remove kf s k = (n, s')"
  shows "live (Elements s') = filter (\<lambda>e. \<not> Matches kf (Key (Pair e)) k) (live (Elements s))"
    and "n = length (filter (\<lambda>e. Matches kf (Key (Pair e)) k) (live (Elements s)))"
    and "slot_at s' i = (if has_key kf k (slot_at s i) then None else slot_at s i)"
    and "HashChain s' = filter (\<lambda>i. \<not> has_key kf k (slot_at s i)) (HashChain s)"
    and "set_Find kf s' k = None"
    and "\<not> set_Contains kf s' k"
proof -
  from eq have s': "Elements s' = map (\<lambda>slot. if has_key kf k slot then None else slot) (Elements s)"
    and n: "n = length (filter (\<lambda>i. has_key kf k (Elements s ! i)) [0..<length (Elements s)])"
    and c: "HashChain s' = filter (\<lambda>i. \<not> has_key kf k (slot_at s i)) (HashChain s)"
    by (auto simp: set_Remove_def Let_def)
  show 1: "live (Elements s') = filter (\<lambda>e. \<not> Matches kf (Key (Pair e)) k) (live (Elements s))"
    by (simp add: s' live_map_remove)
  show "n = length (filter (\<lambda>e. Matches kf (Key (Pair e)) k) (live (Elements s)))"
    by (simp add: n length_filter_indices length_filter_has_key)
  show 3: "slot_at s' i = (if has_key kf k (slot_at s i) then None else slot_at s i)" for i
    by (simp add: slot_at_def s' has_key_def)
  show "HashChain s' = filter (\<lambda>i. \<not> has_key kf k (slot_at s i)) (HashChain s)" by (rule c)
  have "\<not> has_key kf k (slot_at s' i)" for i
    unfolding 3 by (simp add: has_key_def)
  then show "set_Find kf s' k = None" by (simp add: set_Find_def find_None_iff)
  show "\<not> set_Contains kf s' k" by (simp add: set_Contains_iff set_Iterate_def 1)
qed

lemma set_Remove_Num:
  assumes eq: "set_Remove kf s k = (n, s')"
  shows "set_Num s' + n = set_Num s"
  using sum_length_filter_compl [of "\<lambda>e. Matches kf (Key (Pair e)) k" "live (Elements s)"]
  by (simp add: set_Num_def set_Remove_effect(1,2) [OF eq] add.commute)

lemma set_Remove_absent:
  assumes "\<not> set_Contains kf s k"
  shows "set_Remove kf s k = (0, s)"
proof -
  have no: "\<forall>x\<in>set (Elements s). \<not> has_key kf k x"
    using assms by (simp add: set_Contains_def list_ex_iff)
  then have "filter (\<lambda>i. has_key kf k (Elements s ! i)) [0..<length (Elements s)] = []"
    by (auto simp: filter_empty_conv)
  moreover have "map (\<lambda>slot. if has_key kf k slot then None else slot) (Elements s) = Elements s"
    using no by (simp add: map_idI)
  moreover have "\<not> has_key kf k (slot_at s i)" for i
    using no by (simp add: slot_at_def has_key_def)
  then have "filter (\<lambda>i. \<not> has_key kf k (slot_at s i)) (HashChain s) = HashChain s"
    by simp
  ultimately show ?thesis by (simp add: set_Remove_def)
qed

lemma set_Remove_FreeListOk:
  assumes ok: "FreeListOk s"
  shows "FreeListOk (snd (set_Remove kf s k))"
proof -
  define xs where "xs = Elements s"
  define ids where "ids = filter (\<lambda>i. has_key kf k (xs ! i)) [0..<length xs]"
  define ys where "ys = map (\<lambda>slot. if has_key kf k slot then None else slot) xs"
  have fl: "distinct (FreeList s)" "\<And>j. j \<in> set (FreeList s) \<Longrightarrow> j < length xs \<and> xs ! j = None"
    using ok by (simp_all add: FreeListOk_def list_all_iff xs_def)
  have ids: "\<And>i. i \<in> set ids \<Longrightarrow> i < length xs \<and> has_key kf k (xs ! i)"
    by (simp add: ids_def)
  have disj: "set ids \<inter> set (FreeList s) = {}"
  proof (rule ccontr)
    assume "set ids \<inter> set (FreeList s) \<noteq> {}"
    then obtain i where i: "i \<in> set ids" "i \<in> set (FreeList s)" by blast
    from ids [OF i(1)] fl(2) [OF i(2)] show False by (simp add: has_key_def)
  qed
  have "distinct ids" by (simp add: ids_def)
  with fl(1) disj have d: "distinct (rev ids @ FreeList s)" by simp
  have n: "j < length ys \<and> ys ! j = None" if "j \<in> set (rev ids @ FreeList s)" for j
  proof -
    from that ids fl(2) have j: "j < length xs" and "has_key kf k (xs ! j) \<or> xs ! j = None"
      by auto
    then show ?thesis by (auto simp: ys_def)
  qed
  have "FreeList (snd (set_Remove kf s k)) = rev ids @ FreeList s"
    and "Elements (snd (set_Remove kf s k)) = ys"
    by (simp_all add: set_Remove_def Let_def ys_def ids_def xs_def)
  with d n show ?thesis by (simp add: FreeListOk_def list_all_iff)
qed

lemma set_Remove_HashChainOk:
  assumes ch: "HashChainOk s"
  shows "HashChainOk (snd (set_Remove kf s k))"
proof -
  obtain n s' where eq: "set_Remove kf s k = (n, s')" by (cases "set_Remove kf s k")
  note R = set_Remove_effect [OF eq]
  from ch have d: "distinct (HashChain s)" and c: "set (HashChain s) = {i. slot_at s i \<noteq> None}"
    by (simp_all add: HashChainOk_iff)
  have "distinct (HashChain s')" using d by (simp add: R(4))
  moreover have "set (HashChain s') = {i. slot_at s' i \<noteq> None}"
    unfolding R(3,4) using c by auto
  ultimately show ?thesis by (simp add: eq HashChainOk_iff)
qed

lemma set_Remove_HashesOk:
  "HashesOk kf s \<Longrightarrow> HashesOk kf (snd (set_Remove kf s k))"
  using set_Remove_effect(1) [of kf s k]
  by (cases "set_Remove kf s k") (auto simp: HashesOk_def list_all_iff)

lemma set_Remove_KeysUnique:
  assumes "KeysUnique kf s"
  shows "KeysUnique kf (snd (set_Remove kf s k))"
proof -
  obtain n s' where eq: "set_Remove kf s k = (n, s')" by (cases "set_Remove kf s k")
  have "map (\<lambda>e. Key (Pair e)) (filter (\<lambda>e. \<not> Matches kf (Key (Pair e)) k) es)
        = filter (\<lambda>a. \<not> Matches kf a k) (map (\<lambda>e. Key (Pair e)) es)" for es :: "('a, 'b) TSetElement list"
    by (simp add: filter_map comp_def)
  with assms show ?thesis
    by (auto simp: eq KeysUnique_def set_Iterate_def comp_def set_Remove_effect(1) [OF eq]
        intro: KeysDiffer_filter)
qed

subsection \<open>Lookup by hash\<close>

lemma set_FindByHash_eq_Find:
  assumes h: "HashesOk kf s" and kf: "KeyFuncsOk kf"
  shows "set_FindByHash kf s (GetKeyHash kf k) k = set_Find kf s k"
proof -
  have "has_hash_key kf (GetKeyHash kf k) k (slot_at s i) = has_key kf k (slot_at s i)" for i
  proof (cases "slot_at s i")
    case None
    then show ?thesis by (simp add: has_hash_key_def has_key_def)
  next
    case (Some e)
    from slot_at_live [OF Some] h have "KeyHash e = GetKeyHash kf (Key (Pair e))"
      by (simp add: HashesOk_def list_all_iff)
    with Matches_hash [OF kf, of "Key (Pair e)" k] Some show ?thesis
      by (auto simp: has_hash_key_def has_key_def)
  qed
  then show ?thesis by (simp add: set_FindByHash_def set_Find_def)
qed

lemma set_EmplaceByHash_eq_Emplace:
  "HashesOk kf s \<Longrightarrow> KeyFuncsOk kf \<Longrightarrow>
     set_EmplaceByHash kf s (GetKeyHash kf k) k v = set_Emplace kf s k v"
  by (simp add: set_EmplaceByHash_def set_Emplace_def set_FindByHash_eq_Find)

lemma FindOrAdd_eq:
  "HashesOk kf (Pairs m) \<Longrightarrow> KeyFuncsOk kf \<Longrightarrow>
     FindOrAdd kf m k v
     = (case set_Find kf (Pairs m) k of Some i \<Rightarrow> (i, m) | None \<Rightarrow> Add kf m k v)"
  by (simp add: FindOrAdd_def FindOrAddImpl_def HashKey_def AddByHash_def EmplaceByHash_def
      Add_def Emplace_def set_FindByHash_eq_Find set_EmplaceByHash_eq_Emplace
      split: option.splits)

subsection \<open>The states of a map\<close>

lemma Pairs_Add: "Pairs (snd (Add kf m k v)) = snd (set_Emplace kf (Pairs m) k v)"
  by (simp add: Add_def Emplace_def split: prod.splits)

lemma fst_Add: "fst (Add kf m k v) = fst (set_Emplace kf (Pairs m) k v)"
  by (simp add: Add_def Emplace_def split: prod.splits)

lemma Pairs_Remove: "Pairs (snd (Remove kf m k)) = snd (set_Remove kf (Pairs m) k)"
  by (simp add: Remove_def split: prod.splits)

lemma fst_Remove: "fst (Remove kf m k) = fst (set_Remove kf (Pairs m) k)"
  by (simp add: Remove_def split: prod.splits)

lemma MapState_EmptyMap: "MapState kf EmptyMap"
  by (simp add: MapState_def EmptyMap_def set_Empty_def FreeListOk_def HashChainOk_def
      HashesOk_def KeysUnique_def set_Iterate_def)

lemma MapState_Add:
  "KeyFuncsOk kf \<Longrightarrow> MapState kf m \<Longrightarrow> MapState kf (snd (Add kf m k v))"
  by (simp add: MapState_def Pairs_Add set_Emplace_FreeListOk set_Emplace_HashChainOk
      set_Emplace_HashesOk set_Emplace_KeysUnique)

lemma MapState_Remove: "MapState kf m \<Longrightarrow> MapState kf (snd (Remove kf m k))"
  by (simp add: MapState_def Pairs_Remove set_Remove_FreeListOk set_Remove_HashChainOk
      set_Remove_HashesOk set_Remove_KeysUnique)

lemma MapState_FindOrAdd:
  "KeyFuncsOk kf \<Longrightarrow> MapState kf m \<Longrightarrow> MapState kf (snd (FindOrAdd kf m k v))"
  using MapState_Add [of kf m k v]
  by (auto simp: FindOrAdd_eq MapState_def split: option.splits)

lemma MapState_AddAll:
  "KeyFuncsOk kf \<Longrightarrow> MapState kf m \<Longrightarrow> MapState kf (AddAll kf m calls)"
  by (induction calls arbitrary: m) (auto simp: MapState_Add)

section \<open>Properties of the map\<close>

lemma Contains_iff:
  "Contains kf m k \<longleftrightarrow> (\<exists>p\<in>set (set_Iterate (Pairs m)). Matches kf (Key p) k)"
  by (simp add: Contains_def set_Contains_iff)

lemma Find_eq: "Find kf m k = set_Find kf (Pairs m) k"
  by (simp add: Find_def split: option.splits)

lemma FindByHash_eq: "FindByHash kf m h k = set_FindByHash kf (Pairs m) h k"
  by (simp add: FindByHash_def split: option.splits)

lemma Find_Contains: "MapState kf m \<Longrightarrow> Find kf m k \<noteq> None \<longleftrightarrow> Contains kf m k"
  using set_Find_Contains [of "Pairs m" kf k] by (simp add: MapState_def Find_eq Contains_def)

lemma Add_Find:
  assumes "FreeListOk (Pairs m)" and "HashChainOk (Pairs m)" and "Matches kf k k"
  shows "Find kf (snd (Add kf m k v)) k = Some (fst (Add kf m k v))
    \<and> (\<exists>p. Get (snd (Add kf m k v)) (fst (Add kf m k v)) = Some p
          \<and> Matches kf (Key p) k \<and> Value p = v)"
proof -
  obtain r s' where eq: "set_Emplace kf (Pairs m) k v = (r, s')"
    by (cases "set_Emplace kf (Pairs m) k v")
  from set_Emplace_Find [OF assms eq] show ?thesis
    by (simp add: Find_eq Pairs_Add fst_Add Get_def eq)
qed

text \<open>
  C2. In every state of a map, single-value or multi-value, whose key functions keep
  their contract, \<open>Find(k)\<close> right after \<open>Add(k, v)\<close> answers a non-null pointer, the
  very reference \<open>Add\<close> returned, to a stored value equal to \<open>v\<close>. \<open>Find(k)\<close> right
  after \<open>Remove(k)\<close> answers null, whatever the map and its key functions.
\<close>

theorem Add_Find_Remove_Find:
  "(KeyFuncsOk kf \<and> MapState kf m \<longrightarrow>
      (case Add kf m k v of (r, m') \<Rightarrow> Find kf m' k = Some r \<and> ValueAt m' r = Some v))
   \<and> (case Remove kf m k of (n, m') \<Rightarrow> Find kf m' k = None)"
proof -
  have 1: "case Add kf m k v of (r, m') \<Rightarrow> Find kf m' k = Some r \<and> ValueAt m' r = Some v"
    if "KeyFuncsOk kf" and "MapState kf m"
  proof -
    from that have "FreeListOk (Pairs m)" "HashChainOk (Pairs m)" "Matches kf k k"
      by (simp_all add: MapState_def Matches_refl)
    from Add_Find [OF this, of v] show ?thesis
      by (cases "Add kf m k v") (auto simp: ValueAt_def)
  qed
  obtain n s' where eq: "set_Remove kf (Pairs m) k = (n, s')"
    by (cases "set_Remove kf (Pairs m) k")
  have 2: "case Remove kf m k of (n, m') \<Rightarrow> Find kf m' k = None"
    using set_Remove_effect(5) [OF eq] by (simp add: Remove_def eq Find_eq)
  show ?thesis
  proof (rule conjI)
    show "KeyFuncsOk kf \<and> MapState kf m \<longrightarrow>
            (case Add kf m k v of (r, m') \<Rightarrow> Find kf m' k = Some r \<and> ValueAt m' r = Some v)"
      by (rule impI, erule conjE) (rule 1)
    show "case Remove kf m k of (n, m') \<Rightarrow> Find kf m' k = None" by (rule 2)
  qed
qed

text \<open>A multi-value map that holds \<open>("a",1)\<close> and \<open>("a",3)\<close> in slots 0 and 2, slot 1
  being free: \<open>Add("a", 4)\<close> takes slot 1 and \<open>Find("a")\<close> then answers slot 1, which
  holds 4; after \<open>Remove("a")\<close> it answers null.\<close>

theorem Add_Find_Remove_Find_witness:
  "KeyFuncsOk ExampleMultiKeyFuncs
   \<and> MapState ExampleMultiKeyFuncs
         (snd (Remove ExampleMultiKeyFuncs
            (AddAll ExampleMultiKeyFuncs EmptyMap [(''a'', 1 :: int), (''b'', 2), (''a'', 3)])
            ''b''))
   \<and> (case Add ExampleMultiKeyFuncs
             (snd (Remove ExampleMultiKeyFuncs
                (AddAll ExampleMultiKeyFuncs EmptyMap [(''a'', 1 :: int), (''b'', 2), (''a'', 3)])
                ''b'')) ''a'' 4 of
          (r, m') \<Rightarrow> Find ExampleMultiKeyFuncs m' ''a'' = Some r \<and> ValueAt m' r = Some 4)
   \<and> (case Remove ExampleMultiKeyFuncs
             (snd (Remove ExampleMultiKeyFuncs
                (AddAll ExampleMultiKeyFuncs EmptyMap [(''a'', 1 :: int), (''b'', 2), (''a'', 3)])
                ''b'')) ''a'' of
          (n, m') \<Rightarrow> Find ExampleMultiKeyFuncs m' ''a'' = None)
   \<and> fst (Add ExampleMultiKeyFuncs
             (snd (Remove ExampleMultiKeyFuncs
                (AddAll ExampleMultiKeyFuncs EmptyMap [(''a'', 1 :: int), (''b'', 2), (''a'', 3)])
                ''b'')) ''a'' 4) = 1
   \<and> Num (snd (Add ExampleMultiKeyFuncs
             (snd (Remove ExampleMultiKeyFuncs
                (AddAll ExampleMultiKeyFuncs EmptyMap [(''a'', 1 :: int), (''b'', 2), (''a'', 3)])
                ''b'')) ''a'' 4)) = 3"
proof -
  let ?m = "snd (Remove ExampleMultiKeyFuncs
                (AddAll ExampleMultiKeyFuncs EmptyMap [(''a'', 1 :: int), (''b'', 2), (''a'', 3)])
                ''b'')"
  note h0 = KeyFuncsOk_ExampleMultiKeyFuncs
  have h1: "MapState ExampleMultiKeyFuncs ?m"
    by (intro MapState_Remove MapState_AddAll [OF h0] MapState_EmptyMap)
  note a = Add_Find_Remove_Find [of ExampleMultiKeyFuncs ?m "''a''" 4,
      THEN conjunct1, rule_format, OF conjI [OF h0 h1]]
  note b = Add_Find_Remove_Find [of ExampleMultiKeyFuncs ?m "''a''" 0, THEN conjunct2]
  have c: "fst (Add ExampleMultiKeyFuncs ?m ''a'' 4) = 1" by code_simp
  have d: "Num (snd (Add ExampleMultiKeyFuncs ?m ''a'' 4)) = 3" by code_simp
  show ?thesis by (rule conjI [OF h0 conjI [OF h1 conjI [OF a conjI [OF b conjI [OF c d]]]]])
qed

text \<open>
  C5. In every state of a map whose key functions keep their contract,
  \<open>FindByHash(KeyFuncs::GetKeyHash(k), k)\<close> and \<open>Find(k)\<close> answer the same: both null,
  or both the pointer to the same stored value.
\<close>

theorem FindByHash_GetKeyHash_eq_Find:
  assumes "KeyFuncsOk kf" and "MapState kf m"
  shows "FindByHash kf m (GetKeyHash kf k) k = Find kf m k"
  using assms by (simp add: MapState_def FindByHash_eq Find_eq set_FindByHash_eq_Find)

theorem FindByHash_GetKeyHash_eq_Find_witness:
  "KeyFuncsOk ExampleKeyFuncs
   \<and> MapState ExampleKeyFuncs (AddAll ExampleKeyFuncs EmptyMap [(''a'', 1 :: int), (''bc'', 2)])
   \<and> FindByHash ExampleKeyFuncs
         (AddAll ExampleKeyFuncs EmptyMap [(''a'', 1 :: int), (''bc'', 2)])
         (GetKeyHash ExampleKeyFuncs ''bc'') ''bc''
       = Find ExampleKeyFuncs
           (AddAll ExampleKeyFuncs EmptyMap [(''a'', 1 :: int), (''bc'', 2)]) ''bc''
   \<and> Find ExampleKeyFuncs
         (AddAll ExampleKeyFuncs EmptyMap [(''a'', 1 :: int), (''bc'', 2)]) ''bc'' = Some 1"
proof -
  note h0 = KeyFuncsOk_ExampleKeyFuncs
  have h1: "MapState ExampleKeyFuncs
              (AddAll ExampleKeyFuncs EmptyMap [(''a'', 1 :: int), (''bc'', 2)])"
    by (rule MapState_AddAll [OF h0]) (rule MapState_EmptyMap)
  have v: "Find ExampleKeyFuncs
             (AddAll ExampleKeyFuncs EmptyMap [(''a'', 1 :: int), (''bc'', 2)]) ''bc'' = Some 1"
    by code_simp
  note a = FindByHash_GetKeyHash_eq_Find [OF h0 h1, of "''bc''"]
  show ?thesis by (rule conjI [OF h0 conjI [OF h1 conjI [OF a v]]])
qed

text \<open>
  C6. In every state of a map whose key functions keep their contract, the second of
  two consecutive \<open>FindOrAdd(k, d)\<close> calls answers the same reference as the first, to
  the same stored value, and leaves the map, hence \<open>Num()\<close>, as the first call left it.
\<close>

theorem FindOrAdd_twice:
  assumes "KeyFuncsOk kf" and "MapState kf m"
  shows "(case FindOrAdd kf m k d of (r1, m1) \<Rightarrow>
           case FindOrAdd kf m1 k d of (r2, m2) \<Rightarrow>
             r2 = r1 \<and> m2 = m1 \<and> Num m2 = Num m1
             \<and> ValueAt m2 r2 = ValueAt m1 r1 \<and> (\<exists>w. ValueAt m1 r1 = Some w))"
proof -
  obtain r1 m1 where eq1: "FindOrAdd kf m k d = (r1, m1)" by (cases "FindOrAdd kf m k d")
  have ok: "FreeListOk (Pairs m)" "HashChainOk (Pairs m)" "HashesOk kf (Pairs m)"
    using assms by (simp_all add: MapState_def)
  have ms1: "MapState kf m1" using MapState_FindOrAdd [OF assms, of k d] by (simp add: eq1)
  have f1: "set_Find kf (Pairs m1) k = Some r1 \<and> (\<exists>p. Get m1 r1 = Some p)"
  proof (cases "set_Find kf (Pairs m) k")
    case None
    then have a: "Add kf m k d = (r1, m1)"
      using eq1 by (simp add: FindOrAdd_eq [OF ok(3) assms(1)])
    from Add_Find [OF ok(1,2) Matches_refl [OF assms(1)], of k d] show ?thesis
      by (auto simp: a Find_eq)
  next
    case (Some i)
    then have "r1 = i" "m1 = m" using eq1 by (simp_all add: FindOrAdd_eq [OF ok(3) assms(1)])
    with Some set_Find_SomeD(1) [OF Some] show ?thesis by (auto simp: Get_def set_Get_def)
  qed
  then have "FindOrAdd kf m1 k d = (r1, m1)"
    using ms1 assms(1) by (simp add: FindOrAdd_eq MapState_def)
  with f1 show ?thesis by (auto simp: eq1 ValueAt_def)
qed

theorem FindOrAdd_twice_witness:
  "KeyFuncsOk ExampleKeyFuncs
   \<and> MapState ExampleKeyFuncs (AddAll ExampleKeyFuncs EmptyMap [(''a'', 1 :: int)])
   \<and> (case FindOrAdd ExampleKeyFuncs (AddAll ExampleKeyFuncs EmptyMap [(''a'', 1 :: int)]) ''b'' 7 of
         (r1, m1) \<Rightarrow>
           case FindOrAdd ExampleKeyFuncs m1 ''b'' 7 of
             (r2, m2) \<Rightarrow> r2 = r1 \<and> m2 = m1 \<and> Num m2 = Num m1
               \<and> ValueAt m2 r2 = ValueAt m1 r1 \<and> (\<exists>w. ValueAt m1 r1 = Some w))"
proof -
  note h0 = KeyFuncsOk_ExampleKeyFuncs
  have h1: "MapState ExampleKeyFuncs (AddAll ExampleKeyFuncs EmptyMap [(''a'', 1 :: int)])"
    by (rule MapState_AddAll [OF h0]) (rule MapState_EmptyMap)
  note a = FindOrAdd_twice [OF h0 h1, of "''b''" 7]
  show ?thesis by (rule conjI [OF h0 conjI [OF h1 a]])
qed

text \<open>
  C9. \<open>Remove(k)\<close> answers the number of pairs it removed. It answers 0 and leaves the
  map as it was when no stored key equals \<open>k\<close> under the equality of the map's key
  functions, so on the empty map; it answers exactly 1 when a single-value map, whose
  key functions keep their contract, contains \<open>k\<close>; and afterwards the map does not
  contain \<open>k\<close>.
\<close>

theorem Remove_count:
  fixes m :: "('k, 'v) TMapBase"
  shows "(\<not> Contains kf m k \<longrightarrow> Remove kf m k = (0, m))
   \<and> Remove kf (EmptyMap :: ('k, 'v) TMapBase) k = (0, EmptyMap)
   \<and> (KeyFuncsOk kf \<and> MapState kf m \<and> \<not> bAllowDuplicateKeys kf \<and> Contains kf m k
        \<longrightarrow> fst (Remove kf m k) = 1)
   \<and> Num (snd (Remove kf m k)) + fst (Remove kf m k) = Num m
   \<and> \<not> Contains kf (snd (Remove kf m k)) k"
proof -
  obtain n s' where eq: "set_Remove kf (Pairs m) k = (n, s')"
    by (cases "set_Remove kf (Pairs m) k")
  have R: "Remove kf m k = (n, m\<lparr>Pairs := s'\<rparr>)" by (simp add: Remove_def eq)
  have 1: "\<not> Contains kf m k \<longrightarrow> Remove kf m k = (0, m)"
    by (auto simp: Contains_def Remove_def set_Remove_absent)
  have "\<not> Contains kf (EmptyMap :: ('k, 'v) TMapBase) k"
    by (simp add: Contains_iff EmptyMap_def set_Empty_def set_Iterate_def)
  then have 2: "Remove kf (EmptyMap :: ('k, 'v) TMapBase) k = (0, EmptyMap)"
    by (auto simp: Contains_def Remove_def set_Remove_absent)
  have 3: "fst (Remove kf m k) = 1"
    if "KeyFuncsOk kf" "MapState kf m" "\<not> bAllowDuplicateKeys kf" "Contains kf m k"
  proof -
    let ?es = "filter (\<lambda>e. Matches kf (Key (Pair e)) k) (live (Elements (Pairs m)))"
    from that have "KeysDiffer kf (map (\<lambda>e. Key (Pair e)) (live (Elements (Pairs m))))"
      by (simp add: MapState_def KeysUnique_def set_Iterate_def comp_def)
    from KeysDiffer_filter_le [OF that(1) this, of k] have "length ?es \<le> 1" .
    moreover from that(4) have "?es \<noteq> []"
      by (auto simp: Contains_iff set_Iterate_def filter_empty_conv)
    then have "length ?es \<noteq> 0" by simp
    ultimately have "length ?es = 1" by linarith
    then show ?thesis by (simp add: R set_Remove_effect(2) [OF eq])
  qed
  have 4: "Num (snd (Remove kf m k)) + fst (Remove kf m k) = Num m"
    using set_Remove_Num [OF eq] by (simp add: R Num_def)
  have 5: "\<not> Contains kf (snd (Remove kf m k)) k"
    using set_Remove_effect(6) [OF eq] by (simp add: R Contains_def)
  from 1 2 3 4 5 show ?thesis by blast
qed

theorem Remove_count_witness:
  "Remove ExampleKeyFuncs (EmptyMap :: (string, int) TMapBase) ''missing'' = (0, EmptyMap)
   \<and> fst (Remove ExampleKeyFuncs
            (AddAll ExampleKeyFuncs EmptyMap [(''a'', 1 :: int), (''b'', 2)]) ''a'') = 1
   \<and> Num (snd (Remove ExampleKeyFuncs
            (AddAll ExampleKeyFuncs EmptyMap [(''a'', 1 :: int), (''b'', 2)]) ''a'')) = 1"
proof -
  note h0 = KeyFuncsOk_ExampleKeyFuncs
  have h1: "MapState ExampleKeyFuncs (AddAll ExampleKeyFuncs EmptyMap [(''a'', 1 :: int), (''b'', 2)])"
    by (rule MapState_AddAll [OF h0]) (rule MapState_EmptyMap)
  have h2: "\<not> bAllowDuplicateKeys ExampleKeyFuncs" by (simp add: ExampleKeyFuncs_def)
  have h3: "Contains ExampleKeyFuncs
              (AddAll ExampleKeyFuncs EmptyMap [(''a'', 1 :: int), (''b'', 2)]) ''a''"
    by code_simp
  have n: "Num (AddAll ExampleKeyFuncs EmptyMap [(''a'', 1 :: int), (''b'', 2)]) = 2"
    by code_simp
  from Remove_count [where kf = ExampleKeyFuncs and k = "''a''"
      and m = "AddAll ExampleKeyFuncs EmptyMap [(''a'', 1 :: int), (''b'', 2)]"] h0 h1 h2 h3 n
    Remove_count [where kf = ExampleKeyFuncs and k = "''missing''"
      and m = "EmptyMap :: (string, int) TMapBase"]
  show ?thesis by simp
qed

subsection \<open>Sequences of Add\<close>

lemma PairsOf_Add:
  assumes "KeyFuncsOk kf" and "MapState kf m" and "\<not> bAllowDuplicateKeys kf"
  shows "map Value (PairsOf kf (snd (Add kf m k v)) k')
         = (if Matches kf k k' then [v] else map Value (PairsOf kf m k'))"
proof -
  from assms have ok: "FreeListOk (Pairs m)" "HashChainOk (Pairs m)" "KeysUnique kf (Pairs m)"
    by (simp_all add: MapState_def)
  note E = set_Emplace_matching [OF ok assms(3,1), of k k' v]
  show ?thesis
  proof (cases "Matches kf k k'")
    case True
    with E(1) show ?thesis by (simp add: PairsOf_def Pairs_Add)
  next
    case False
    with E(2) show ?thesis by (simp add: PairsOf_def Pairs_Add)
  qed
qed

lemma PairsOf_AddAll:
  "KeyFuncsOk kf \<Longrightarrow> MapState kf m \<Longrightarrow> \<not> bAllowDuplicateKeys kf \<Longrightarrow>
     map Value (PairsOf kf (AddAll kf m calls) k)
       = (case MostRecentAdd kf calls k of Some w \<Rightarrow> [w] | None \<Rightarrow> map Value (PairsOf kf m k))"
proof (induction calls arbitrary: m)
  case Nil
  show ?case by simp
next
  case (Cons c calls)
  obtain k' v where c: "c = (k', v)" by (cases c)
  have "MapState kf (snd (Add kf m k' v))" using Cons.prems(1,2) by (rule MapState_Add)
  from Cons.IH [OF Cons.prems(1) this Cons.prems(3)] show ?case
    by (simp add: c PairsOf_Add [OF Cons.prems] split: option.splits)
qed

lemma Find_None_PairsOf: "MapState kf m \<Longrightarrow> Find kf m k = None \<longleftrightarrow> PairsOf kf m k = []"
  by (simp add: Find_eq MapState_def set_Find_None_iff PairsOf_def filter_empty_conv)

lemma Find_Some_PairsOf:
  assumes "Find kf m k = Some i"
  shows "\<exists>p. Get m i = Some p \<and> p \<in> set (PairsOf kf m k)"
proof -
  from assms have "set_Find kf (Pairs m) k = Some i" by (simp add: Find_eq)
  from set_Find_SomeD(1) [OF this] obtain d where d: "slot_at (Pairs m) i = Some d"
    and kd: "Matches kf (Key (Pair d)) k" by blast
  from slot_at_live [OF d] have "Pair d \<in> set (set_Iterate (Pairs m))"
    by (simp add: set_Iterate_def)
  with kd have "Pair d \<in> set (PairsOf kf m k)" by (simp add: PairsOf_def)
  moreover have "Get m i = Some (Pair d)" by (simp add: Get_def set_Get_def d)
  ultimately show ?thesis by blast
qed

lemma PairsOf_value_Find:
  assumes ms: "MapState kf m" and one: "map Value (PairsOf kf m k) = [v]"
  shows "\<exists>i. Find kf m k = Some i \<and> ValueAt m i = Some v"
proof -
  from one obtain q where q: "PairsOf kf m k = [q]" and v: "Value q = v" by auto
  then have "Find kf m k \<noteq> None" using Find_None_PairsOf [OF ms, of k] by simp
  then obtain i where i: "Find kf m k = Some i" by auto
  from Find_Some_PairsOf [OF i] q obtain p where "Get m i = Some p" and "p = q" by auto
  with v i show ?thesis by (simp add: ValueAt_def)
qed

lemma NewKeys_cong:
  "set seen = set seen' \<Longrightarrow> NewKeys kf seen ks = NewKeys kf seen' ks"
proof (induction ks arbitrary: seen seen')
  case Nil
  show ?case by simp
next
  case (Cons k ks)
  have "list_ex (\<lambda>k'. Matches kf k' k) seen = list_ex (\<lambda>k'. Matches kf k' k) seen'"
    using Cons.prems by (simp add: list_ex_iff)
  moreover have "NewKeys kf seen ks = NewKeys kf seen' ks"
    using Cons.prems by (rule Cons.IH)
  moreover have "NewKeys kf (seen @ [k]) ks = NewKeys kf (seen' @ [k]) ks"
    using Cons.prems by (intro Cons.IH) simp
  ultimately show ?case by simp
qed

lemma NewKeys_subset: "set (NewKeys kf seen ks) \<subseteq> set ks"
  by (induction ks arbitrary: seen) auto

lemma NewKeys_equality:
  assumes "Matches kf = (\<lambda>a b. a = b)"
  shows "length (NewKeys kf seen ks) = card (set ks - set seen)"
proof (induction ks arbitrary: seen)
  case Nil
  show ?case by simp
next
  case (Cons k ks)
  have ex: "list_ex (\<lambda>k'. Matches kf k' k) seen \<longleftrightarrow> k \<in> set seen"
    by (auto simp: assms list_ex_iff)
  show ?case
  proof (cases "k \<in> set seen")
    case True
    then have "set (k # ks) - set seen = set ks - set seen" by auto
    with True ex Cons.IH [of seen] show ?thesis by simp
  next
    case False
    have "set (k # ks) - set seen = insert k (set ks - set (seen @ [k]))"
      using False by auto
    moreover have "k \<notin> set ks - set (seen @ [k])" by simp
    ultimately have "card (set (k # ks) - set seen) = Suc (card (set ks - set (seen @ [k])))"
      by (simp del: set_append)
    with False ex Cons.IH [of "seen @ [k]"] show ?thesis by simp
  qed
qed


lemma Num_Add:
  assumes "MapState kf m" and "\<not> bAllowDuplicateKeys kf"
  shows "Num (snd (Add kf m k v)) = (if Contains kf m k then Num m else Suc (Num m))"
    and "set (map Key (set_Iterate (Pairs (snd (Add kf m k v)))))
         = (if Contains kf m k then set (map Key (set_Iterate (Pairs m)))
            else insert k (set (map Key (set_Iterate (Pairs m)))))"
proof -
  from assms have ok: "FreeListOk (Pairs m)" "HashChainOk (Pairs m)"
    by (simp_all add: MapState_def)
  show "Num (snd (Add kf m k v)) = (if Contains kf m k then Num m else Suc (Num m))"
    using set_Emplace_Num [OF ok, of kf k v] assms(2)
    by (simp add: Num_def Contains_def Pairs_Add)
  show "set (map Key (set_Iterate (Pairs (snd (Add kf m k v)))))
         = (if Contains kf m k then set (map Key (set_Iterate (Pairs m)))
            else insert k (set (map Key (set_Iterate (Pairs m)))))"
    using set_Emplace_keys [OF ok, of kf k v] assms(2)
    by (simp add: Contains_def Pairs_Add)
qed

lemma Num_AddAll:
  "KeyFuncsOk kf \<Longrightarrow> MapState kf m \<Longrightarrow> \<not> bAllowDuplicateKeys kf \<Longrightarrow>
     Num (AddAll kf m calls)
       = Num m + length (NewKeys kf (map Key (set_Iterate (Pairs m))) (map fst calls))"
proof (induction calls arbitrary: m)
  case Nil
  show ?case by simp
next
  case (Cons c calls)
  obtain k v where c: "c = (k, v)" by (cases c)
  let ?m = "snd (Add kf m k v)"
  let ?keys = "map Key (set_Iterate (Pairs m))"
  have ms: "MapState kf ?m" using Cons.prems(1,2) by (rule MapState_Add)
  note IH = Cons.IH [OF Cons.prems(1) ms Cons.prems(3)]
  note N = Num_Add [OF Cons.prems(2,3), of k v]
  have ex: "list_ex (\<lambda>k'. Matches kf k' k) ?keys \<longleftrightarrow> Contains kf m k"
    by (auto simp: list_ex_iff Contains_iff)
  show ?case
  proof (cases "Contains kf m k")
    case True
    with N have "set (map Key (set_Iterate (Pairs ?m))) = set ?keys" by simp
    from NewKeys_cong [OF this] IH N(1) True ex show ?thesis by (simp add: c)
  next
    case False
    with N have "set (map Key (set_Iterate (Pairs ?m))) = set (?keys @ [k])" by simp
    from NewKeys_cong [OF this] IH N(1) False ex show ?thesis by (simp add: c)
  qed
qed




lemma AddAll_EmptyMap:
  fixes calls :: "('k \<times> 'v) list"
  assumes kf: "KeyFuncsOk kf" and nd: "\<not> bAllowDuplicateKeys kf"
  defines "m \<equiv> AddAll kf EmptyMap calls"
  shows "MapState kf m"
    and "map Value (PairsOf kf m k)
         = (case MostRecentAdd kf calls k of Some w \<Rightarrow> [w] | None \<Rightarrow> [])"
    and "Num m = length (NewKeys kf [] (map fst calls))"
proof -
  have ms0: "MapState kf (EmptyMap :: ('k, 'v) TMapBase)" by (rule MapState_EmptyMap)
  have e: "set_Iterate (Pairs (EmptyMap :: ('k, 'v) TMapBase)) = []"
    by (simp add: EmptyMap_def set_Empty_def set_Iterate_def)
  show "MapState kf m" unfolding m_def using kf ms0 by (rule MapState_AddAll)
  show "map Value (PairsOf kf m k)
         = (case MostRecentAdd kf calls k of Some w \<Rightarrow> [w] | None \<Rightarrow> [])"
    unfolding m_def PairsOf_AddAll [OF kf ms0 nd]
    by (simp add: PairsOf_def e split: option.splits)
  have "Num (EmptyMap :: ('k, 'v) TMapBase) = 0"
    by (simp add: Num_def set_Num_def EmptyMap_def set_Empty_def)
  then show "Num m = length (NewKeys kf [] (map fst calls))"
    unfolding m_def Num_AddAll [OF kf ms0 nd] by (simp add: e)
qed

text \<open>
  C1. For a single-value map whose key functions keep their contract and every finite
  sequence of \<open>Add(k, v)\<close> calls from the empty map: a key is in the map exactly when
  the sequence adds it; each such key has exactly one stored pair, whose value is that
  of the most recent \<open>Add\<close> of the key, and \<open>Find\<close> answers a pointer to that value;
  \<open>Num()\<close> is the number of different keys added. When the equality of the key
  functions is the equality of the key type, that number is the cardinality of the set
  of keys added and the stored pair of a key \<open>k\<close> is \<open>(k, v)\<close>.
\<close>

theorem Add_sequence_last_wins:
  assumes "KeyFuncsOk kf" and "\<not> bAllowDuplicateKeys kf"
  shows "(let m = AddAll kf EmptyMap calls in
           Num m = length (NewKeys kf [] (map fst calls))
           \<and> (\<forall>k. case MostRecentAdd kf calls k of
                     None \<Rightarrow> Find kf m k = None \<and> PairsOf kf m k = []
                   | Some v \<Rightarrow> (\<exists>p. Find kf m k = Some p \<and> ValueAt m p = Some v)
                       \<and> map Value (PairsOf kf m k) = [v])
           \<and> (Matches kf = (\<lambda>a b. a = b) \<longrightarrow>
                Num m = card (fst ` set calls)
                \<and> (\<forall>k. case MostRecentAdd kf calls k of
                          None \<Rightarrow> filter (\<lambda>p. Key p = k) (set_Iterate (Pairs m)) = []
                        | Some v \<Rightarrow> filter (\<lambda>p. Key p = k) (set_Iterate (Pairs m))
                            = [\<lparr>Key = k, Value = v\<rparr>])))"
proof -
  let ?m = "AddAll kf EmptyMap calls"
  note A = AddAll_EmptyMap [OF assms, of calls]
  have none: "Find kf ?m k = None \<and> PairsOf kf ?m k = []"
    if "MostRecentAdd kf calls k = None" for k
    using A(2) [of k] that Find_None_PairsOf [OF A(1), of k] by simp
  have some: "(\<exists>p. Find kf ?m k = Some p \<and> ValueAt ?m p = Some v)
      \<and> map Value (PairsOf kf ?m k) = [v]"
    if "MostRecentAdd kf calls k = Some v" for k v
    using A(2) [of k] that PairsOf_value_Find [OF A(1), of k v] by simp
  have 2: "\<forall>k. case MostRecentAdd kf calls k of
                     None \<Rightarrow> Find kf ?m k = None \<and> PairsOf kf ?m k = []
                   | Some v \<Rightarrow> (\<exists>p. Find kf ?m k = Some p \<and> ValueAt ?m p = Some v)
                       \<and> map Value (PairsOf kf ?m k) = [v]"
    using none some by (simp split: option.splits)
  have 3: "Num ?m = card (fst ` set calls)
         \<and> (\<forall>k. case MostRecentAdd kf calls k of
                    None \<Rightarrow> filter (\<lambda>p. Key p = k) (set_Iterate (Pairs ?m)) = []
                  | Some v \<Rightarrow> filter (\<lambda>p. Key p = k) (set_Iterate (Pairs ?m))
                      = [\<lparr>Key = k, Value = v\<rparr>])"
    if eq: "Matches kf = (\<lambda>a b. a = b)"
  proof -
    have P: "PairsOf kf ?m k = filter (\<lambda>p. Key p = k) (set_Iterate (Pairs ?m))" for k
      by (simp add: PairsOf_def eq)
    have "filter (\<lambda>p. Key p = k) (set_Iterate (Pairs ?m)) = [\<lparr>Key = k, Value = v\<rparr>]"
      if "MostRecentAdd kf calls k = Some v" for k v
    proof -
      from some [OF that] obtain q where q: "PairsOf kf ?m k = [q]" and v: "Value q = v"
        by auto
      then have "q \<in> set (filter (\<lambda>p. Key p = k) (set_Iterate (Pairs ?m)))"
        by (simp add: P [symmetric])
      then have "Key q = k" by simp
      with v have "q = \<lparr>Key = k, Value = v\<rparr>" by (cases q) simp
      with q show ?thesis by (simp add: P)
    qed
    moreover have "filter (\<lambda>p. Key p = k) (set_Iterate (Pairs ?m)) = []"
      if "MostRecentAdd kf calls k = None" for k
      using none [OF that] by (simp add: P)
    moreover have "Num ?m = card (fst ` set calls)"
      by (simp add: A(3) NewKeys_equality [OF eq])
    ultimately show ?thesis by (simp split: option.splits)
  qed
  from A(3) 2 3 show ?thesis by (simp add: Let_def)
qed

text \<open>Scenario A, for every hash function: inserting \<open>("a",1)\<close>, \<open>("b",2)\<close>,
  \<open>("a",3)\<close> gives \<open>Num() == 2\<close>, \<open>"a"\<close> mapped to 3 and \<open>"b"\<close> to 2. And under
  key functions that ignore case, inserting \<open>("a",1)\<close>, \<open>("B",2)\<close>, \<open>("A",3)\<close>
  gives \<open>Num() == 2\<close> and one stored value, 3, for \<open>"A"\<close>.\<close>

theorem Add_sequence_last_wins_witness:
  "(\<forall>h. (let kf = \<lparr>GetKeyHash = h, Matches = (\<lambda>a b. a = b), bAllowDuplicateKeys = False\<rparr>;
            m = AddAll kf EmptyMap [(''a'', 1 :: int), (''b'', 2), (''a'', 3)]
        in KeyFuncsOk kf
           \<and> Num m = 2
           \<and> (\<exists>p. Find kf m ''a'' = Some p \<and> ValueAt m p = Some 3)
           \<and> (\<exists>p. Find kf m ''b'' = Some p \<and> ValueAt m p = Some 2)
           \<and> filter (\<lambda>p. Key p = ''a'') (set_Iterate (Pairs m)) = [\<lparr>Key = ''a'', Value = 3\<rparr>]
           \<and> filter (\<lambda>p. Key p = ''b'') (set_Iterate (Pairs m)) = [\<lparr>Key = ''b'', Value = 2\<rparr>]))
   \<and> KeyFuncsOk ExampleIgnoreCaseKeyFuncs
   \<and> Num (AddAll ExampleIgnoreCaseKeyFuncs EmptyMap [(''a'', 1 :: int), (''B'', 2), (''A'', 3)])
       = 2
   \<and> (\<exists>p. Find ExampleIgnoreCaseKeyFuncs
             (AddAll ExampleIgnoreCaseKeyFuncs EmptyMap [(''a'', 1 :: int), (''B'', 2), (''A'', 3)])
             ''A'' = Some p
          \<and> ValueAt
               (AddAll ExampleIgnoreCaseKeyFuncs EmptyMap [(''a'', 1 :: int), (''B'', 2), (''A'', 3)])
               p = Some 3)
   \<and> map Value (PairsOf ExampleIgnoreCaseKeyFuncs
         (AddAll ExampleIgnoreCaseKeyFuncs EmptyMap [(''a'', 1 :: int), (''B'', 2), (''A'', 3)])
         ''A'') = [3]"
proof -
  have A: "(let kf = \<lparr>GetKeyHash = h, Matches = (\<lambda>a b. a = b), bAllowDuplicateKeys = False\<rparr>;
            m = AddAll kf EmptyMap [(''a'', 1 :: int), (''b'', 2), (''a'', 3)]
        in KeyFuncsOk kf
           \<and> Num m = 2
           \<and> (\<exists>p. Find kf m ''a'' = Some p \<and> ValueAt m p = Some 3)
           \<and> (\<exists>p. Find kf m ''b'' = Some p \<and> ValueAt m p = Some 2)
           \<and> filter (\<lambda>p. Key p = ''a'') (set_Iterate (Pairs m)) = [\<lparr>Key = ''a'', Value = 3\<rparr>]
           \<and> filter (\<lambda>p. Key p = ''b'') (set_Iterate (Pairs m)) = [\<lparr>Key = ''b'', Value = 2\<rparr>])"
    for h :: "string \<Rightarrow> uint32"
  proof -
    let ?kf = "\<lparr>GetKeyHash = h, Matches = (\<lambda>a b. a = b), bAllowDuplicateKeys = False\<rparr>"
    have nd: "\<not> bAllowDuplicateKeys ?kf" by simp
    have eq: "Matches ?kf = (\<lambda>a b. a = b)" by simp
    have ok: "KeyFuncsOk ?kf" by (simp add: KeyFuncsOk_def)
    have c: "card (fst ` set [(''a'', 1 :: int), (''b'', 2), (''a'', 3)]) = 2"
      by (simp add: card_insert_if)
    note T = Add_sequence_last_wins [OF ok nd, of "[(''a'', 1 :: int), (''b'', 2), (''a'', 3)]",
        unfolded Let_def]
    note E = T [THEN conjunct2, THEN conjunct2, rule_format, OF eq, unfolded c]
    from T [THEN conjunct2, THEN conjunct1, THEN spec, of "''a''"]
      T [THEN conjunct2, THEN conjunct1, THEN spec, of "''b''"]
      E [THEN conjunct2, THEN spec, of "''a''"] E [THEN conjunct2, THEN spec, of "''b''"]
      E [THEN conjunct1] ok
    show ?thesis by (simp add: Let_def)
  qed
  let ?calls = "[(''a'', 1 :: int), (''B'', 2), (''A'', 3)]"
  note ok = KeyFuncsOk_ExampleIgnoreCaseKeyFuncs
  have nd: "\<not> bAllowDuplicateKeys ExampleIgnoreCaseKeyFuncs"
    by (simp add: ExampleIgnoreCaseKeyFuncs_def)
  have n: "length (NewKeys ExampleIgnoreCaseKeyFuncs [] (map fst ?calls)) = 2" by code_simp
  have r: "MostRecentAdd ExampleIgnoreCaseKeyFuncs ?calls ''A'' = Some 3" by code_simp
  note T = Add_sequence_last_wins [OF ok nd, of ?calls, unfolded Let_def]
  from T [THEN conjunct1] n
  have 1: "Num (AddAll ExampleIgnoreCaseKeyFuncs EmptyMap ?calls) = 2" by simp
  from T [THEN conjunct2, THEN conjunct1, THEN spec, of "''A''"] r
  have 2: "(\<exists>p. Find ExampleIgnoreCaseKeyFuncs (AddAll ExampleIgnoreCaseKeyFuncs EmptyMap ?calls)
                ''A'' = Some p
              \<and> ValueAt (AddAll ExampleIgnoreCaseKeyFuncs EmptyMap ?calls) p = Some 3)
           \<and> map Value (PairsOf ExampleIgnoreCaseKeyFuncs
                 (AddAll ExampleIgnoreCaseKeyFuncs EmptyMap ?calls) ''A'') = [3]"
    by simp
  from A ok 1 2 show ?thesis by blast
qed

subsection \<open>Order-independent comparison\<close>



lemma KeysDiffer_count:
  assumes kf: "KeyFuncsOk kf"
  shows "KeysDiffer kf ks \<longleftrightarrow> (\<forall>k. length (filter (\<lambda>k'. Matches kf k' k) ks) \<le> 1)"
proof
  assume "KeysDiffer kf ks"
  then have "KeysDiffer kf (map (\<lambda>x. x) ks)" by simp
  from KeysDiffer_filter_le [OF kf this] show "\<forall>k. length (filter (\<lambda>k'. Matches kf k' k) ks) \<le> 1"
    by simp
next
  show "\<forall>k. length (filter (\<lambda>k'. Matches kf k' k) ks) \<le> 1 \<Longrightarrow> KeysDiffer kf ks"
  proof (induction ks)
    case Nil
    show ?case by simp
  next
    case (Cons k0 ks)
    have le: "length (filter (\<lambda>k'. Matches kf k' k) ks) \<le> 1" for k
      using Cons.prems [rule_format, of k] by (simp split: if_splits)
    then have 1: "KeysDiffer kf ks" using Cons.IH by simp
    have 2: "\<not> Matches kf k0 k' \<and> \<not> Matches kf k' k0" if k': "k' \<in> set ks" for k'
    proof -
      have two: "False" if "Matches kf k0 k" "Matches kf k' k" for k
      proof -
        from k' that(2) have "filter (\<lambda>x. Matches kf x k) ks \<noteq> []"
          by (auto simp: filter_empty_conv)
        then have "1 \<le> length (filter (\<lambda>x. Matches kf x k) ks)"
          by (simp add: Suc_leI)
        with that(1) Cons.prems [rule_format, of k] show False by simp
      qed
      have "\<not> Matches kf k0 k'" using two [of k'] Matches_refl [OF kf] by blast
      moreover have "\<not> Matches kf k' k0" using two [of k0] Matches_refl [OF kf] by blast
      ultimately show ?thesis by simp
    qed
    from 1 2 show ?case by (simp add: list_all_iff)
  qed
qed






subsection \<open>GetKeys\<close>

lemma NewKeys_differ:
  assumes kf: "KeyFuncsOk kf"
  shows "KeysDiffer kf (NewKeys kf seen ks)
    \<and> (\<forall>s\<in>set seen. \<forall>r\<in>set (NewKeys kf seen ks). \<not> Matches kf s r)"
proof (induction ks arbitrary: seen)
  case Nil
  show ?case by simp
next
  case (Cons k ks)
  show ?case
  proof (cases "list_ex (\<lambda>k'. Matches kf k' k) seen")
    case True
    with Cons.IH [of seen] show ?thesis by simp
  next
    case False
    let ?R = "NewKeys kf (seen @ [k]) ks"
    note IH = Cons.IH [of "seen @ [k]"]
    from IH have kr: "\<forall>r\<in>set ?R. \<not> Matches kf k r" by simp
    then have rk: "\<forall>r\<in>set ?R. \<not> Matches kf r k" using Matches_sym [OF kf] by blast
    from False have "\<forall>s\<in>set seen. \<not> Matches kf s k" by (simp add: list_ex_iff)
    with IH kr rk False show ?thesis by (simp add: list_all_iff)
  qed
qed

lemma NewKeys_covers:
  assumes kf: "KeyFuncsOk kf"
  shows "k \<in> set ks \<Longrightarrow> \<exists>r\<in>set seen \<union> set (NewKeys kf seen ks). Matches kf r k"
proof (induction ks arbitrary: seen)
  case Nil
  then show ?case by simp
next
  case (Cons k0 ks)
  show ?case
  proof (cases "list_ex (\<lambda>k'. Matches kf k' k0) seen")
    case True
    show ?thesis
    proof (cases "k = k0")
      case k: True
      from True show ?thesis by (auto simp: k list_ex_iff)
    next
      case False
      with Cons.prems have "k \<in> set ks" by simp
      from Cons.IH [OF this, of seen] True show ?thesis by simp
    qed
  next
    case new: False
    show ?thesis
    proof (cases "k = k0")
      case True
      with new Matches_refl [OF kf, of k0] show ?thesis by auto
    next
      case False
      with Cons.prems have "k \<in> set ks" by simp
      from Cons.IH [OF this, of "seen @ [k0]"] new show ?thesis by auto
    qed
  qed
qed

lemma NewKeys_once:
  assumes kf: "KeyFuncsOk kf" and k: "k \<in> set ks"
  shows "length (filter (\<lambda>r. Matches kf r k) (NewKeys kf [] ks)) = 1"
proof -
  let ?R = "filter (\<lambda>r. Matches kf r k) (NewKeys kf [] ks)"
  from NewKeys_differ [OF kf, of "[]" ks] have "KeysDiffer kf (NewKeys kf [] ks)" by simp
  then have "length ?R \<le> 1" using KeysDiffer_count [OF kf] by blast
  moreover from NewKeys_covers [OF kf k, of "[]"] have "?R \<noteq> []"
    by (auto simp: filter_empty_conv)
  then have "length ?R \<noteq> 0" by simp
  ultimately show ?thesis by linarith
qed

lemma GetKeysLoop_effect:
  assumes "FreeListOk V" and "HashChainOk V" and "set (map Key (set_Iterate V)) = set Out"
  shows "fst (GetKeysLoop dkf ps Out V) = Out @ NewKeys dkf Out (map Key ps)"
  using assms
proof (induction ps arbitrary: Out V)
  case Nil
  then show ?case by simp
next
  case (Cons p ps)
  have "set_Contains dkf V (Key p)
      \<longleftrightarrow> (\<exists>k'\<in>set (map Key (set_Iterate V)). Matches dkf k' (Key p))"
    by (simp add: set_Contains_iff)
  then have c: "set_Contains dkf V (Key p) \<longleftrightarrow> list_ex (\<lambda>k'. Matches dkf k' (Key p)) Out"
    unfolding Cons.prems(3) by (simp add: list_ex_iff)
  show ?case
  proof (cases "set_Contains dkf V (Key p)")
    case True
    with Cons.IH [OF Cons.prems] c show ?thesis by simp
  next
    case False
    let ?V = "snd (set_Emplace dkf V (Key p) ())"
    have 1: "FreeListOk ?V" using Cons.prems(1,2) by (rule set_Emplace_FreeListOk)
    have 2: "HashChainOk ?V" using Cons.prems(1,2) by (rule set_Emplace_HashChainOk)
    have 3: "set (map Key (set_Iterate ?V)) = set (Out @ [Key p])"
      using set_Emplace_keys [OF Cons.prems(1,2), of dkf "Key p" "()"] False Cons.prems(3)
      by simp
    from Cons.IH [OF 1 2 3] False c show ?thesis by simp
  qed
qed

lemma GetKeys_effect:
  "GetKeys kf dkf m OutKeys
     = (length (NewKeys dkf [] (map Key (set_Iterate (Pairs m)))),
        NewKeys dkf [] (map Key (set_Iterate (Pairs m))))"
proof -
  have 1: "FreeListOk (set_Empty :: ('a, unit) TSet)"
    by (simp add: FreeListOk_def set_Empty_def)
  have 2: "HashChainOk (set_Empty :: ('a, unit) TSet)"
    by (simp add: HashChainOk_def set_Empty_def)
  have 3: "set (map Key (set_Iterate (set_Empty :: ('a, unit) TSet))) = set []"
    by (simp add: set_Empty_def set_Iterate_def)
  from GetKeysLoop_effect [OF 1 2 3, of dkf "set_Iterate (Pairs m)"] show ?thesis
    by (cases "GetKeysLoop dkf (set_Iterate (Pairs m)) [] set_Empty")
      (simp add: GetKeys_def set_Reserve_def array_Reserve_def array_Reset_def)
qed

lemma set_Emplace_append:
  assumes fl: "FreeList s = []" and ch: "HashChainOk s"
  shows "FreeList (snd (set_Emplace kf s k v)) = []
    \<and> HashChainOk (snd (set_Emplace kf s k v))
    \<and> map Key (set_Iterate (snd (set_Emplace kf s k v)))
        = (if \<not> bAllowDuplicateKeys kf \<and> set_Contains kf s k then map Key (set_Iterate s)
           else map Key (set_Iterate s) @ [k])"
proof -
  have ok: "FreeListOk s" using fl by (simp add: FreeListOk_def)
  note c = set_Find_Contains [OF ch, of kf k]
  have 2: "HashChainOk (snd (set_Emplace kf s k v))"
    using ok ch by (rule set_Emplace_HashChainOk)
  show ?thesis
  proof (cases "bAllowDuplicateKeys kf \<or> set_Find kf s k = None")
    case True
    then have "snd (set_Emplace kf s k v)
        = s\<lparr>Elements := Elements s @ [Some \<lparr>Pair = \<lparr>Key = k, Value = v\<rparr>, KeyHash = GetKeyHash kf k\<rparr>],
            HashChain := length (Elements s) # HashChain s\<rparr>"
      by (auto simp: set_Emplace_def set_AddNew_def fl)
    with True c 2 show ?thesis by (auto simp: fl set_Iterate_def live_append)
  next
    case False
    then obtain i where nd: "\<not> bAllowDuplicateKeys kf" and f: "set_Find kf s k = Some i"
      by auto
    obtain r s' where eq: "set_Emplace kf s k v = (r, s')" by (cases "set_Emplace kf s k v")
    have "FreeList s' = FreeList s" using eq nd f by (auto simp: set_Emplace_def set_Replace_def)
    moreover from ok ch eq have "map Key (set_Iterate s') = map Key (set_Iterate s)"
    proof (cases rule: set_Emplace_cases)
      case (old A B d)
      then show ?thesis by (simp add: set_Iterate_def)
    next
      case (new A B)
      with False show ?thesis by simp
    qed
    ultimately show ?thesis using 2 nd f c by (simp add: eq fl)
  qed
qed

lemma GetKeysSetLoop_effect:
  assumes "FreeList V = []" and "HashChainOk V"
  shows "map Key (set_Iterate (GetKeysSetLoop dkf ps V))
         = map Key (set_Iterate V)
           @ (if bAllowDuplicateKeys dkf then map Key ps
              else NewKeys dkf (map Key (set_Iterate V)) (map Key ps))"
  using assms
proof (induction ps arbitrary: V)
  case Nil
  then show ?case by simp
next
  case (Cons p ps)
  let ?V = "snd (set_Emplace dkf V (Key p) ())"
  note E = set_Emplace_append [OF Cons.prems, of dkf "Key p" "()"]
  from E have 1: "FreeList ?V = []" and 2: "HashChainOk ?V" by simp_all
  have c: "set_Contains dkf V (Key p)
      \<longleftrightarrow> list_ex (\<lambda>k'. Matches dkf k' (Key p)) (map Key (set_Iterate V))"
    by (simp add: set_Contains_iff list_ex_iff)
  from Cons.IH [OF 1 2] E c show ?case by simp
qed

lemma GetKeysSet_effect:
  "fst (GetKeysSet kf dkf m OutKeys) = set_Num (snd (GetKeysSet kf dkf m OutKeys))
   \<and> map Key (set_Iterate (snd (GetKeysSet kf dkf m OutKeys)))
       = (if bAllowDuplicateKeys dkf then map Key (set_Iterate (Pairs m))
          else NewKeys dkf [] (map Key (set_Iterate (Pairs m))))"
proof -
  have 1: "FreeList (set_Empty :: ('a, unit) TSet) = []" by (simp add: set_Empty_def)
  have 2: "HashChainOk (set_Empty :: ('a, unit) TSet)"
    by (simp add: HashChainOk_def set_Empty_def)
  have 3: "map Key (set_Iterate (set_Empty :: ('a, unit) TSet)) = []"
    by (simp add: set_Empty_def set_Iterate_def)
  from GetKeysSetLoop_effect [OF 1 2, of dkf "set_Iterate (Pairs m)"] 3 show ?thesis
    by (simp add: GetKeysSet_def Let_def set_Reserve_def set_Reset_def)
qed

lemma NewKeys_equality_set:
  assumes eq: "Matches kf = (\<lambda>a b. a = b)"
  shows "distinct (NewKeys kf [] ks) \<and> set (NewKeys kf [] ks) = set ks"
proof -
  note kf = KeyFuncsOk_equality [OF eq]
  from NewKeys_differ [OF kf, of "[]" ks] have "distinct (NewKeys kf [] ks)"
    by (simp add: KeysDiffer_equality [OF eq])
  moreover have "k \<in> set (NewKeys kf [] ks)" if "k \<in> set ks" for k
    using NewKeys_covers [OF kf that, of "[]"] by (simp add: eq)
  ultimately show ?thesis using NewKeys_subset [of kf "[]" ks] by blast
qed

text \<open>
  C8, as stated, fails where it names the equality: \<open>GetKeys\<close> does not tell the keys it
  writes apart by the equality the map is configured with. The source looks for the keys
  it has written in a \<open>TSet<KeyType>\<close>, whose key functions are not those of the map. In
  a single-value map of strings whose key functions tell \<open>"A"\<close> from \<open>"a"\<close>, holding
  both, with a key type whose equality ignores case, \<open>GetKeys\<close> writes \<open>"A"\<close> and
  answers 1: the key \<open>"a"\<close> of the map is not written.
\<close>

theorem GetKeys_configured_equality_counterexample:
  "KeyFuncsOk ExampleKeyFuncs
   \<and> MapState ExampleKeyFuncs (AddAll ExampleKeyFuncs EmptyMap [(''A'', 1 :: int), (''a'', 2)])
   \<and> map Key (set_Iterate (Pairs (AddAll ExampleKeyFuncs EmptyMap [(''A'', 1 :: int), (''a'', 2)])))
       = [''A'', ''a'']
   \<and> \<not> Matches ExampleKeyFuncs ''A'' ''a''
   \<and> GetKeys ExampleKeyFuncs ExampleIgnoreCaseKeyFuncs
         (AddAll ExampleKeyFuncs EmptyMap [(''A'', 1 :: int), (''a'', 2)]) []
       = (1, [''A''])
   \<and> filter (\<lambda>r. Matches ExampleKeyFuncs r ''a'')
         (snd (GetKeys ExampleKeyFuncs ExampleIgnoreCaseKeyFuncs
                 (AddAll ExampleKeyFuncs EmptyMap [(''A'', 1 :: int), (''a'', 2)]) []))
       = []"
proof -
  note h0 = KeyFuncsOk_ExampleKeyFuncs
  have h1: "MapState ExampleKeyFuncs
              (AddAll ExampleKeyFuncs EmptyMap [(''A'', 1 :: int), (''a'', 2)])"
    by (rule MapState_AddAll [OF h0]) (rule MapState_EmptyMap)
  have 2: "map Key (set_Iterate (Pairs (AddAll ExampleKeyFuncs EmptyMap [(''A'', 1 :: int), (''a'', 2)])))
       = [''A'', ''a'']"
    by code_simp
  have 3: "\<not> Matches ExampleKeyFuncs ''A'' ''a''" by (simp add: ExampleKeyFuncs_def)
  have 4: "GetKeys ExampleKeyFuncs ExampleIgnoreCaseKeyFuncs
         (AddAll ExampleKeyFuncs EmptyMap [(''A'', 1 :: int), (''a'', 2)]) []
       = (1, [''A''])"
    by code_simp
  have 5: "filter (\<lambda>r. Matches ExampleKeyFuncs r ''a'')
         (snd (GetKeys ExampleKeyFuncs ExampleIgnoreCaseKeyFuncs
                 (AddAll ExampleKeyFuncs EmptyMap [(''A'', 1 :: int), (''a'', 2)]) []))
       = []"
    unfolding 4 by (simp add: ExampleKeyFuncs_def)
  show ?thesis by (rule conjI [OF h0 conjI [OF h1 conjI [OF 2 conjI [OF 3 conjI [OF 4 5]]]]])
qed

text \<open>
  C8, amended. For every map, whatever its \<open>KeyFuncs\<close> and even when its slots hold
  equal keys more than once, \<open>GetKeys(OutKeys)\<close> first resets the output collection
  (what it held does not matter), then writes the keys of the map in the order of
  iteration, leaving out each key that equals a key written before under the equality of
  the key functions of \<open>TSet<KeyType>\<close>, which are not the \<open>KeyFuncs\<close> of the map. It
  answers the number of keys written, which is the final element count of the output
  collection; on the empty map it answers 0 and leaves the output empty. When the key
  functions of \<open>TSet<KeyType>\<close> keep their contract, no two written keys are equal under
  their equality and each key of the map equals exactly one written key; when their
  equality is the equality of the key type, the written keys are the keys of the map,
  each once. The overload that fills a set does the same when the key functions of that
  set disallow duplicate keys, and writes every key of the map when they allow them.
\<close>

theorem GetKeys_dedup_key_type_equality:
  fixes m :: "('k, 'v) TMapBase"
  shows
    "(case GetKeys kf dkf m OutKeys of
        (n, Out) \<Rightarrow> n = length Out
          \<and> Out = NewKeys dkf [] (map Key (set_Iterate (Pairs m)))
          \<and> set Out \<subseteq> Key ` set (set_Iterate (Pairs m))
          \<and> (KeyFuncsOk dkf \<longrightarrow>
               KeysDiffer dkf Out
               \<and> (\<forall>p\<in>set (set_Iterate (Pairs m)).
                     length (filter (\<lambda>r. Matches dkf r (Key p)) Out) = 1))
          \<and> (Matches dkf = (\<lambda>a b. a = b) \<longrightarrow>
               distinct Out \<and> set Out = Key ` set (set_Iterate (Pairs m))))
     \<and> GetKeys kf dkf m OutKeys = GetKeys kf dkf m []
     \<and> GetKeys kf dkf (EmptyMap :: ('k, 'v) TMapBase) OutKeys = (0, [])
     \<and> (case GetKeysSet kf dkf m OutSet of
          (n, Out) \<Rightarrow> n = set_Num Out
            \<and> map Key (set_Iterate Out)
                = (if bAllowDuplicateKeys dkf then map Key (set_Iterate (Pairs m))
                   else NewKeys dkf [] (map Key (set_Iterate (Pairs m))))
            \<and> (KeyFuncsOk dkf \<and> \<not> bAllowDuplicateKeys dkf \<longrightarrow>
                 KeysDiffer dkf (map Key (set_Iterate Out))
                 \<and> (\<forall>p\<in>set (set_Iterate (Pairs m)).
                       length (filter (\<lambda>r. Matches dkf r (Key p)) (map Key (set_Iterate Out)))
                         = 1)))
     \<and> GetKeysSet kf dkf m OutSet = GetKeysSet kf dkf m set_Empty
     \<and> GetKeysSet kf dkf (EmptyMap :: ('k, 'v) TMapBase) OutSet = (0, set_Empty)"
proof -
  let ?ks = "map Key (set_Iterate (Pairs m))"
  let ?R = "NewKeys dkf [] ?ks"
  have law: "KeysDiffer dkf ?R
      \<and> (\<forall>p\<in>set (set_Iterate (Pairs m)). length (filter (\<lambda>r. Matches dkf r (Key p)) ?R) = 1)"
    if ok: "KeyFuncsOk dkf"
  proof -
    from NewKeys_differ [OF ok, of "[]" ?ks] have "KeysDiffer dkf ?R" by simp
    moreover have "length (filter (\<lambda>r. Matches dkf r (Key p)) ?R) = 1"
      if "p \<in> set (set_Iterate (Pairs m))" for p
      using that by (intro NewKeys_once [OF ok]) simp
    ultimately show ?thesis by simp
  qed
  have sub: "set ?R \<subseteq> Key ` set (set_Iterate (Pairs m))"
    using NewKeys_subset [of dkf "[]" ?ks] by simp
  have eq: "distinct ?R \<and> set ?R = Key ` set (set_Iterate (Pairs m))"
    if "Matches dkf = (\<lambda>a b. a = b)"
    using NewKeys_equality_set [OF that, of ?ks] by simp
  have 1: "case GetKeys kf dkf m OutKeys of
        (n, Out) \<Rightarrow> n = length Out
          \<and> Out = NewKeys dkf [] (map Key (set_Iterate (Pairs m)))
          \<and> set Out \<subseteq> Key ` set (set_Iterate (Pairs m))
          \<and> (KeyFuncsOk dkf \<longrightarrow>
               KeysDiffer dkf Out
               \<and> (\<forall>p\<in>set (set_Iterate (Pairs m)).
                     length (filter (\<lambda>r. Matches dkf r (Key p)) Out) = 1))
          \<and> (Matches dkf = (\<lambda>a b. a = b) \<longrightarrow>
               distinct Out \<and> set Out = Key ` set (set_Iterate (Pairs m)))"
    unfolding GetKeys_effect prod.case using law sub eq by blast
  have 2: "GetKeys kf dkf m OutKeys = GetKeys kf dkf m []"
    by (simp add: GetKeys_def array_Reset_def)
  have 3: "GetKeys kf dkf (EmptyMap :: ('k, 'v) TMapBase) OutKeys = (0, [])"
    by (simp add: GetKeys_def EmptyMap_def set_Empty_def set_Iterate_def set_Reserve_def
        array_Reserve_def array_Reset_def Let_def)
  note S = GetKeysSet_effect [of kf dkf m OutSet]
  have 4: "case GetKeysSet kf dkf m OutSet of
          (n, Out) \<Rightarrow> n = set_Num Out
            \<and> map Key (set_Iterate Out)
                = (if bAllowDuplicateKeys dkf then map Key (set_Iterate (Pairs m))
                   else NewKeys dkf [] (map Key (set_Iterate (Pairs m))))
            \<and> (KeyFuncsOk dkf \<and> \<not> bAllowDuplicateKeys dkf \<longrightarrow>
                 KeysDiffer dkf (map Key (set_Iterate Out))
                 \<and> (\<forall>p\<in>set (set_Iterate (Pairs m)).
                       length (filter (\<lambda>r. Matches dkf r (Key p)) (map Key (set_Iterate Out)))
                         = 1))"
  proof (cases "GetKeysSet kf dkf m OutSet")
    case (Pair n Out)
    with S have n: "n = set_Num Out"
      and k: "map Key (set_Iterate Out)
                = (if bAllowDuplicateKeys dkf then ?ks else ?R)"
      by simp_all
    have "KeysDiffer dkf (map Key (set_Iterate Out))
        \<and> (\<forall>p\<in>set (set_Iterate (Pairs m)).
              length (filter (\<lambda>r. Matches dkf r (Key p)) (map Key (set_Iterate Out))) = 1)"
      if "KeyFuncsOk dkf" "\<not> bAllowDuplicateKeys dkf"
    proof -
      from k that(2) have "map Key (set_Iterate Out) = ?R" by simp
      then show ?thesis using law [OF that(1)] by simp
    qed
    with n k show ?thesis unfolding Pair prod.case by blast
  qed
  have 5: "GetKeysSet kf dkf m OutSet = GetKeysSet kf dkf m set_Empty"
    by (simp add: GetKeysSet_def set_Reset_def)
  have 6: "GetKeysSet kf dkf (EmptyMap :: ('k, 'v) TMapBase) OutSet = (0, set_Empty)"
    by (simp add: GetKeysSet_def EmptyMap_def set_Empty_def set_Iterate_def set_Num_def
        set_Reserve_def set_Reset_def Let_def)
  show ?thesis
    by (rule conjI [OF 1 conjI [OF 2 conjI [OF 3 conjI [OF 4 conjI [OF 5 6]]]]])
qed

theorem GetKeys_dedup_key_type_equality_witness:
  "KeyFuncsOk ExampleIgnoreCaseKeyFuncs
   \<and> \<not> bAllowDuplicateKeys ExampleIgnoreCaseKeyFuncs
   \<and> GetKeys ExampleKeyFuncs ExampleIgnoreCaseKeyFuncs
       \<lparr>Pairs = \<lparr>Elements =
          [Some \<lparr>Pair = \<lparr>Key = ''a'', Value = 1 :: int\<rparr>, KeyHash = 1\<rparr>, None,
           Some \<lparr>Pair = \<lparr>Key = ''b'', Value = 2\<rparr>, KeyHash = 1\<rparr>,
           Some \<lparr>Pair = \<lparr>Key = ''A'', Value = 3\<rparr>, KeyHash = 1\<rparr>],
        FreeList = [1], HashChain = [3, 2, 0]\<rparr>\<rparr> [''zz'']
     = (2, [''a'', ''b''])
   \<and> KeysDiffer ExampleIgnoreCaseKeyFuncs [''a'', ''b'']
   \<and> length (filter (\<lambda>r. Matches ExampleIgnoreCaseKeyFuncs r ''A'') [''a'', ''b'']) = 1
   \<and> (case GetKeysSet ExampleKeyFuncs ExampleIgnoreCaseKeyFuncs
          \<lparr>Pairs = \<lparr>Elements =
          [Some \<lparr>Pair = \<lparr>Key = ''a'', Value = 1 :: int\<rparr>, KeyHash = 1\<rparr>, None,
           Some \<lparr>Pair = \<lparr>Key = ''b'', Value = 2\<rparr>, KeyHash = 1\<rparr>,
           Some \<lparr>Pair = \<lparr>Key = ''A'', Value = 3\<rparr>, KeyHash = 1\<rparr>],
        FreeList = [1], HashChain = [3, 2, 0]\<rparr>\<rparr> set_Empty of
         (n, Out) \<Rightarrow> n = set_Num Out \<and> map Key (set_Iterate Out) = [''a'', ''b''])
   \<and> GetKeys ExampleKeyFuncs ExampleIgnoreCaseKeyFuncs
       (EmptyMap :: (string, int) TMapBase) [''zz''] = (0, [])"
proof -
  let ?m = "\<lparr>Pairs = \<lparr>Elements =
          [Some \<lparr>Pair = \<lparr>Key = ''a'', Value = 1 :: int\<rparr>, KeyHash = 1\<rparr>, None,
           Some \<lparr>Pair = \<lparr>Key = ''b'', Value = 2\<rparr>, KeyHash = 1\<rparr>,
           Some \<lparr>Pair = \<lparr>Key = ''A'', Value = 3\<rparr>, KeyHash = 1\<rparr>],
        FreeList = [1], HashChain = [3, 2, 0]\<rparr>\<rparr>"
  note T = GetKeys_dedup_key_type_equality [where kf = ExampleKeyFuncs
      and dkf = ExampleIgnoreCaseKeyFuncs and m = ?m and OutKeys = "[''zz'']"
      and OutSet = set_Empty]
  note ok = KeyFuncsOk_ExampleIgnoreCaseKeyFuncs
  have nd: "\<not> bAllowDuplicateKeys ExampleIgnoreCaseKeyFuncs"
    by (simp add: ExampleIgnoreCaseKeyFuncs_def)
  have ks: "NewKeys ExampleIgnoreCaseKeyFuncs [] (map Key (set_Iterate (Pairs ?m)))
      = [''a'', ''b'']"
    by code_simp
  have p: "\<lparr>Key = ''A'', Value = 3 :: int\<rparr> \<in> set (set_Iterate (Pairs ?m))"
    by (simp add: set_Iterate_def)
  from T [THEN conjunct1]
  have 1: "GetKeys ExampleKeyFuncs ExampleIgnoreCaseKeyFuncs ?m [''zz''] = (2, [''a'', ''b''])"
    by (cases "GetKeys ExampleKeyFuncs ExampleIgnoreCaseKeyFuncs ?m [''zz'']")
      (simp only: prod.case ks, simp)
  from T [THEN conjunct1] ok
  have law: "KeysDiffer ExampleIgnoreCaseKeyFuncs [''a'', ''b'']
      \<and> (\<forall>p\<in>set (set_Iterate (Pairs ?m)).
            length (filter (\<lambda>r. Matches ExampleIgnoreCaseKeyFuncs r (Key p)) [''a'', ''b'']) = 1)"
    unfolding 1 prod.case by blast
  from law have 2: "KeysDiffer ExampleIgnoreCaseKeyFuncs [''a'', ''b'']" by (rule conjunct1)
  from law [THEN conjunct2, rule_format, OF p]
  have 3: "length (filter (\<lambda>r. Matches ExampleIgnoreCaseKeyFuncs r ''A'') [''a'', ''b'']) = 1"
    by simp
  obtain n Out where G: "GetKeysSet ExampleKeyFuncs ExampleIgnoreCaseKeyFuncs ?m set_Empty = (n, Out)"
    by (cases "GetKeysSet ExampleKeyFuncs ExampleIgnoreCaseKeyFuncs ?m set_Empty")
  from T [THEN conjunct2, THEN conjunct2, THEN conjunct2, THEN conjunct1, unfolded G prod.case]
  have "n = set_Num Out \<and> map Key (set_Iterate Out) = [''a'', ''b'']"
    using nd ks by simp
  then have 4: "case GetKeysSet ExampleKeyFuncs ExampleIgnoreCaseKeyFuncs ?m set_Empty of
         (n, Out) \<Rightarrow> n = set_Num Out \<and> map Key (set_Iterate Out) = [''a'', ''b'']"
    unfolding G prod.case .
  have 5: "GetKeys ExampleKeyFuncs ExampleIgnoreCaseKeyFuncs
       (EmptyMap :: (string, int) TMapBase) [''zz''] = (0, [])"
    by (rule GetKeys_dedup_key_type_equality [where kf = ExampleKeyFuncs
        and dkf = ExampleIgnoreCaseKeyFuncs
        and m = "EmptyMap :: (string, int) TMapBase" and OutKeys = "[''zz'']"
        and OutSet = set_Empty, THEN conjunct2, THEN conjunct2, THEN conjunct1])
  show ?thesis
    by (rule conjI [OF ok conjI [OF nd conjI [OF 1 conjI [OF 2 conjI [OF 3 conjI [OF 4 5]]]]]])
qed

end
